theory Spec2Isabelle
  imports Main "HOL-Library.Word" "HOL-Library.Monad_Syntax"
begin

section \<open>The LRU replacer (lru\_replacer.h, lru\_replacer.cpp)\<close>

text \<open>
  Frame and page identifiers are \<open>int32_t\<close> in the source; no operation here does
  arithmetic on them, so they are integers. A \<open>ListNode *\<close> is an optional address
  (\<open>None\<close> is \<open>nullptr\<close>); the nodes live in an explicit store. The outer
  \<open>option\<close> of every operation is the outcome of the call: \<open>None\<close> stands for
  undefined behaviour of the C++ (a dereference of \<open>nullptr\<close>, an index outside the
  frame array).
\<close>

type_synonym frame_id_t = int
type_synonym page_id_t = int
type_synonym ptr = "nat option"

record ListNode =
  key :: frame_id_t
  val :: frame_id_t
  nxt :: ptr
  pre :: ptr

type_synonym node_store = "nat \<Rightarrow> ListNode option"

text \<open>
  The fields of the class. \<open>cur_size\<close> is the member \<open>size\<close> (a \<open>size_t\<close>, as is
  \<open>capacity\<close>); \<open>next_addr\<close> is the allocator behind \<open>new ListNode\<close>: the
  source never deletes a node, so a counter yields a fresh address each time.
\<close>

record LRUReplacer =
  nodes :: node_store
  next_addr :: nat
  head :: ptr
  tail :: ptr
  hash :: "frame_id_t \<Rightarrow> nat option"
  capacity :: "64 word"
  cur_size :: "64 word"

text \<open>
  Reading and writing through a pointer. \<open>load h p\<close> is the node \<open>*p\<close>;
  \<open>store_nxt p v h\<close> is the assignment \<open>p->nxt = v\<close> and \<open>store_pre p v h\<close> is
  \<open>p->pre = v\<close>. Each is \<open>None\<close> when \<open>p\<close> is \<open>nullptr\<close> or points to no node. In
  \<open>hash\<close>, \<open>None\<close> says that the key is not in the table.
\<close>

definition load :: "node_store \<Rightarrow> ptr \<Rightarrow> ListNode option" where
  "load h p = (case p of None \<Rightarrow> None | Some a \<Rightarrow> h a)"

definition store_nxt :: "ptr \<Rightarrow> ptr \<Rightarrow> node_store \<Rightarrow> node_store option" where
  "store_nxt p v h =
     (case p of None \<Rightarrow> None
      | Some a \<Rightarrow> (case h a of None \<Rightarrow> None | Some n \<Rightarrow> Some (h(a \<mapsto> n\<lparr>nxt := v\<rparr>))))"

definition store_pre :: "ptr \<Rightarrow> ptr \<Rightarrow> node_store \<Rightarrow> node_store option" where
  "store_pre p v h =
     (case p of None \<Rightarrow> None
      | Some a \<Rightarrow> (case h a of None \<Rightarrow> None | Some n \<Rightarrow> Some (h(a \<mapsto> n\<lparr>pre := v\<rparr>))))"

text \<open>The constructor: two sentinel nodes with key and value -1, linked to each other.\<close>

definition new_LRUReplacer :: "64 word \<Rightarrow> LRUReplacer" where
  "new_LRUReplacer num_pages =
     \<lparr>nodes = (\<lambda>a. None)
        (0 \<mapsto> \<lparr>key = -1, val = -1, nxt = Some 1, pre = None\<rparr>,
         1 \<mapsto> \<lparr>key = -1, val = -1, nxt = None, pre = Some 0\<rparr>),
      next_addr = 2, head = Some 0, tail = Some 1, hash = (\<lambda>f. None),
      capacity = num_pages, cur_size = 0\<rparr>"

text \<open>\<open>LRUReplacer::insert\<close>: the new node goes right behind the head sentinel.\<close>

definition insert_frame :: "frame_id_t \<Rightarrow> LRUReplacer \<Rightarrow> LRUReplacer option" where
  "insert_frame frame_id r = do {
     let newNode = Some (next_addr r);
     let h = (nodes r)(next_addr r \<mapsto> \<lparr>key = frame_id, val = 0, nxt = None, pre = None\<rparr>);
     hd_node \<leftarrow> load h (head r);
     let nxtNode = nxt hd_node;
     h \<leftarrow> store_nxt (head r) newNode h;
     h \<leftarrow> store_pre newNode (head r) h;
     h \<leftarrow> store_nxt newNode nxtNode h;
     h \<leftarrow> store_pre nxtNode newNode h;
     new_node \<leftarrow> load h newNode;
     Some (r\<lparr>nodes := h, next_addr := next_addr r + 1,
              hash := (hash r)(key new_node \<mapsto> next_addr r),
              cur_size := cur_size r + 1\<rparr>)
   }"

text \<open>
  \<open>LRUReplacer::erase\<close>. For a key that is not in the table, \<open>hash[frame_id]\<close>
  default-inserts \<open>nullptr\<close> and the next line dereferences it.
\<close>

definition erase :: "frame_id_t \<Rightarrow> LRUReplacer \<Rightarrow> LRUReplacer option" where
  "erase frame_id r = do {
     let rmNode = hash r frame_id;
     rm_node \<leftarrow> load (nodes r) rmNode;
     let preNode = pre rm_node;
     let nxtNode = nxt rm_node;
     h \<leftarrow> store_nxt preNode nxtNode (nodes r);
     h \<leftarrow> store_pre nxtNode preNode h;
     Some (r\<lparr>nodes := h, hash := (hash r)(frame_id := None), cur_size := cur_size r - 1\<rparr>)
   }"

text \<open>
  \<open>LRUReplacer::Victim\<close>. The result \<open>Some f\<close> is the return value \<open>true\<close> with
  \<open>*frame_id = f\<close>; \<open>None\<close> is \<open>false\<close>, the out-parameter untouched.
\<close>

definition Victim :: "LRUReplacer \<Rightarrow> (frame_id_t option \<times> LRUReplacer) option" where
  "Victim r =
     (if cur_size r = 0 then Some (None, r)
      else do {
        tail_node \<leftarrow> load (nodes r) (tail r);
        last_node \<leftarrow> load (nodes r) (pre tail_node);
        let v = key last_node;
        r' \<leftarrow> erase v r;
        Some (Some v, r')
      })"

definition Pin :: "frame_id_t \<Rightarrow> LRUReplacer \<Rightarrow> LRUReplacer option" where
  "Pin frame_id r =
     (if hash r frame_id \<noteq> None then do {
        let curNode = hash r frame_id;
        cur_node \<leftarrow> load (nodes r) curNode;
        let nxtNode = nxt cur_node;
        let preNode = pre cur_node;
        h \<leftarrow> store_pre nxtNode preNode (nodes r);
        h \<leftarrow> store_nxt preNode nxtNode h;
        Some (r\<lparr>nodes := h, hash := (hash r)(frame_id := None), cur_size := cur_size r - 1\<rparr>)
      }
      else Some r)"

definition Unpin :: "frame_id_t \<Rightarrow> LRUReplacer \<Rightarrow> LRUReplacer option" where
  "Unpin frame_id r =
     (if hash r frame_id = None then do {
        r1 \<leftarrow> (if cur_size r = capacity r then do {
                 tail_node \<leftarrow> load (nodes r) (tail r);
                 last_node \<leftarrow> load (nodes r) (pre tail_node);
                 let v = key last_node;
                 erase v r
               } else Some r);
        insert_frame frame_id r1
      }
      else Some r)"

definition Size :: "LRUReplacer \<Rightarrow> 64 word" where
  "Size r = cur_size r"

section \<open>Pages and the disk manager\<close>

text \<open>
  Modelled from the spec: the \<open>Page\<close> class (page.h) is not among the sources. A page
  is its byte buffer and the three metadata fields the manager reads and writes;
  \<open>ResetMemory\<close> zeroes the buffer. \<open>PAGE_SIZE\<close> and the sentinel identity are
  declared in common/config.h, which is missing too: \<open>PAGE_SIZE\<close> is a parameter of
  the operations that need it. The pin count is a C++ \<open>int\<close>; its bounds are never
  approached by a property below and it is an unbounded integer here.
\<close>

type_synonym page_data = "8 word list"

record Page =
  data :: page_data
  page_id :: page_id_t
  pin_count :: int
  is_dirty :: bool

definition INVALID_PAGE_ID :: page_id_t where
  "INVALID_PAGE_ID = -1"

definition ResetMemory :: "nat \<Rightarrow> Page \<Rightarrow> Page" where
  "ResetMemory PAGE_SIZE p = p\<lparr>data := replicate PAGE_SIZE 0\<rparr>"

definition new_Page :: "nat \<Rightarrow> Page" where
  "new_Page PAGE_SIZE =
     \<lparr>data = replicate PAGE_SIZE 0, page_id = INVALID_PAGE_ID, pin_count = 0, is_dirty = False\<rparr>"

text \<open>
  Modelled from the spec: the Disk Manager is an external collaborator with synchronous
  \<open>read(id, buffer)\<close>, \<open>write(id, buffer)\<close>, \<open>allocate_id()\<close> and
  \<open>deallocate_id(id)\<close>. Its state is what a read returns for each identity, the
  next identity to hand out, and the trace of the calls made on it (oldest first), so
  that "performs a disk write" and "no disk I/O" are statements about the trace.
\<close>

datatype disk_call =
  Read page_id_t
  | Write page_id_t page_data
  | Allocate page_id_t
  | Deallocate page_id_t

record DiskManager =
  contents :: "page_id_t \<Rightarrow> page_data"
  next_page_id :: page_id_t
  trace :: "disk_call list"

definition ReadPage :: "page_id_t \<Rightarrow> DiskManager \<Rightarrow> page_data \<times> DiskManager" where
  "ReadPage pid d = (contents d pid, d\<lparr>trace := trace d @ [Read pid]\<rparr>)"

definition WritePage :: "page_id_t \<Rightarrow> page_data \<Rightarrow> DiskManager \<Rightarrow> DiskManager" where
  "WritePage pid buf d =
     d\<lparr>contents := (contents d)(pid := buf), trace := trace d @ [Write pid buf]\<rparr>"

definition AllocatePage :: "DiskManager \<Rightarrow> page_id_t \<times> DiskManager" where
  "AllocatePage d =
     (next_page_id d,
      d\<lparr>next_page_id := next_page_id d + 1, trace := trace d @ [Allocate (next_page_id d)]\<rparr>)"

section \<open>The buffer pool manager (buffer\_pool\_manager.cpp)\<close>

text \<open>
  \<open>log_manager_\<close> is stored and never used. A \<open>Page *\<close> into \<open>pages_\<close> is the
  frame index it was computed from; reading or writing through it outside the array is
  undefined behaviour.
\<close>

record BufferPoolManager =
  pool_size :: "64 word"
  pages :: "Page list"
  page_table :: "page_id_t \<Rightarrow> frame_id_t option"
  free_list :: "frame_id_t list"
  replacer :: LRUReplacer
  disk_manager :: DiskManager

text \<open>
  \<open>page_at s f\<close> reads the page \<open>*(pages_ + f)\<close> and \<open>upd_page f g s\<close> writes
  through that pointer; an operation checks \<open>frame_in_pool\<close> once, where the source
  first dereferences the pointer.
\<close>

definition frame_in_pool :: "BufferPoolManager \<Rightarrow> frame_id_t \<Rightarrow> bool" where
  "frame_in_pool s f = (0 \<le> f \<and> nat f < length (pages s))"

definition page_at :: "BufferPoolManager \<Rightarrow> frame_id_t \<Rightarrow> Page option" where
  "page_at s f = (if frame_in_pool s f then Some (pages s ! nat f) else None)"

definition upd_page :: "frame_id_t \<Rightarrow> (Page \<Rightarrow> Page) \<Rightarrow> BufferPoolManager \<Rightarrow> BufferPoolManager" where
  "upd_page f g s = s\<lparr>pages := (pages s)[nat f := g (pages s ! nat f)]\<rparr>"

text \<open>
  The constructor. The free list receives \<open>static_cast<int>(i)\<close> for every
  \<open>size_t i\<close> below the pool size.
\<close>

definition new_BufferPoolManager :: "nat \<Rightarrow> 64 word \<Rightarrow> DiskManager \<Rightarrow> BufferPoolManager" where
  "new_BufferPoolManager PAGE_SIZE n dm =
     \<lparr>pool_size = n,
      pages = replicate (unat n) (new_Page PAGE_SIZE),
      page_table = (\<lambda>p. None),
      free_list = map (\<lambda>i. sint (word_of_nat i :: 32 word)) [0..<unat n],
      replacer = new_LRUReplacer n,
      disk_manager = dm\<rparr>"

text \<open>
  \<open>FlushPageImpl\<close>. The manager's own calls go through the public \<open>FlushPage\<close> of
  buffer\_pool\_manager.h (not among the sources), which forwards to this function.
\<close>

definition FlushPageImpl :: "page_id_t \<Rightarrow> BufferPoolManager \<Rightarrow> (bool \<times> BufferPoolManager) option" where
  "FlushPageImpl pid s =
     (case page_table s pid of
        None \<Rightarrow> Some (False, s)
      | Some frameId \<Rightarrow> do {
          frame \<leftarrow> page_at s frameId;
          let s = s\<lparr>disk_manager := WritePage pid (data frame) (disk_manager s)\<rparr>;
          let s = upd_page frameId (\<lambda>p. p\<lparr>is_dirty := False\<rparr>) s;
          Some (True, s)
        })"

text \<open>
  \<open>FetchPageImpl\<close>. The result is the frame the returned \<open>Page *\<close> points to, or
  \<open>None\<close> for \<open>nullptr\<close>.
\<close>

definition FetchPageImpl :: "nat \<Rightarrow> page_id_t \<Rightarrow> BufferPoolManager \<Rightarrow> (frame_id_t option \<times> BufferPoolManager) option" where
  "FetchPageImpl PAGE_SIZE pid s =
     (case page_table s pid of
        Some frameId \<Rightarrow> do {
          frame \<leftarrow> page_at s frameId;
          Some (Some frameId, upd_page frameId (\<lambda>p. p\<lparr>pin_count := pin_count p + 1\<rparr>) s)
        }
      | None \<Rightarrow>
          (case free_list s of
             freeFrameId # rest \<Rightarrow> do {
               let s = s\<lparr>free_list := rest\<rparr>;
               frame \<leftarrow> page_at s freeFrameId;
               let s = upd_page freeFrameId (ResetMemory PAGE_SIZE) s;
               let s = upd_page freeFrameId (\<lambda>p. p\<lparr>page_id := pid\<rparr>) s;
               let (buf, dm) = ReadPage pid (disk_manager s);
               let s = upd_page freeFrameId (\<lambda>p. p\<lparr>data := buf\<rparr>) (s\<lparr>disk_manager := dm\<rparr>);
               let s = upd_page freeFrameId (\<lambda>p. p\<lparr>pin_count := 1\<rparr>) s;
               let s = upd_page freeFrameId (\<lambda>p. p\<lparr>is_dirty := False\<rparr>) s;
               Some (Some freeFrameId, s\<lparr>page_table := (page_table s)(pid \<mapsto> freeFrameId)\<rparr>)
             }
           | [] \<Rightarrow> do {
               (victim, rep) \<leftarrow> Victim (replacer s);
               let s = s\<lparr>replacer := rep\<rparr>;
               (case victim of
                  None \<Rightarrow> Some (None, s)
                | Some victimFrameId \<Rightarrow> do {
                    frame \<leftarrow> page_at s victimFrameId;
                    let victimPageId = page_id frame;
                    s \<leftarrow> (if is_dirty frame then map_option snd (FlushPageImpl victimPageId s)
                          else Some s);
                    let s = s\<lparr>page_table := (page_table s)(victimPageId := None)\<rparr>;
                    let s = upd_page victimFrameId (ResetMemory PAGE_SIZE) s;
                    let s = upd_page victimFrameId (\<lambda>p. p\<lparr>pin_count := 1\<rparr>) s;
                    let s = upd_page victimFrameId (\<lambda>p. p\<lparr>page_id := pid\<rparr>) s;
                    let s = upd_page victimFrameId (\<lambda>p. p\<lparr>is_dirty := False\<rparr>) s;
                    let (buf, dm) = ReadPage pid (disk_manager s);
                    let s = upd_page victimFrameId (\<lambda>p. p\<lparr>data := buf\<rparr>) (s\<lparr>disk_manager := dm\<rparr>);
                    Some (Some victimFrameId, s\<lparr>page_table := (page_table s)(pid \<mapsto> victimFrameId)\<rparr>)
                  })
             }))"

definition UnpinPageImpl :: "page_id_t \<Rightarrow> bool \<Rightarrow> BufferPoolManager \<Rightarrow> (bool \<times> BufferPoolManager) option" where
  "UnpinPageImpl pid dirty s =
     (case page_table s pid of
        None \<Rightarrow> Some (False, s)
      | Some frameId \<Rightarrow> do {
          frame \<leftarrow> page_at s frameId;
          let framePinCnt = pin_count frame;
          (if framePinCnt = 0 then Some (False, s)
           else do {
             s \<leftarrow> (if dirty then map_option snd (FlushPageImpl pid s) else Some s);
             let s = upd_page frameId (\<lambda>p. p\<lparr>is_dirty := (is_dirty p \<or> dirty)\<rparr>) s;
             let s = upd_page frameId (\<lambda>p. p\<lparr>pin_count := pin_count p - 1\<rparr>) s;
             (if pin_count (pages s ! nat frameId) = 0 then do {
                rep \<leftarrow> Unpin frameId (replacer s);
                Some (True, s\<lparr>replacer := rep\<rparr>)
              }
              else Some (True, s))
           })
        })"

text \<open>
  \<open>NewPageImpl\<close>. The result pairs the identity written to \<open>*page_id\<close> with the
  frame of the returned page; \<open>None\<close> is \<open>nullptr\<close>, the out-parameter untouched.
\<close>

definition NewPageImpl :: "nat \<Rightarrow> BufferPoolManager \<Rightarrow> ((page_id_t \<times> frame_id_t) option \<times> BufferPoolManager) option" where
  "NewPageImpl PAGE_SIZE s0 =
     (let (newPageId, dm) = AllocatePage (disk_manager s0);
          s = s0\<lparr>disk_manager := dm\<rparr>
      in case free_list s of
           freeFrameId # rest \<Rightarrow> do {
             let s = s\<lparr>free_list := rest\<rparr>;
             frame \<leftarrow> page_at s freeFrameId;
             let s = upd_page freeFrameId (ResetMemory PAGE_SIZE) s;
             let s = upd_page freeFrameId (\<lambda>p. p\<lparr>page_id := newPageId\<rparr>) s;
             let s = upd_page freeFrameId (\<lambda>p. p\<lparr>pin_count := 1\<rparr>) s;
             let s = upd_page freeFrameId (\<lambda>p. p\<lparr>is_dirty := True\<rparr>) s;
             Some (Some (newPageId, freeFrameId),
                   s\<lparr>page_table := (page_table s)(newPageId \<mapsto> freeFrameId)\<rparr>)
           }
         | [] \<Rightarrow> do {
             (update, rep) \<leftarrow> Victim (replacer s);
             let s = s\<lparr>replacer := rep\<rparr>;
             (case update of
                None \<Rightarrow> Some (None, s)
              | Some replaceFrameId \<Rightarrow> do {
                  frame \<leftarrow> page_at s replaceFrameId;
                  let victimPageId = page_id frame;
                  s \<leftarrow> (if is_dirty frame then map_option snd (FlushPageImpl victimPageId s)
                        else Some s);
                  let s = upd_page replaceFrameId (ResetMemory PAGE_SIZE) s;
                  let s = s\<lparr>page_table := (page_table s)(victimPageId := None)\<rparr>;
                  let s = s\<lparr>page_table := (page_table s)(newPageId \<mapsto> replaceFrameId)\<rparr>;
                  let s = upd_page replaceFrameId (\<lambda>p. p\<lparr>page_id := newPageId\<rparr>) s;
                  let s = upd_page replaceFrameId (\<lambda>p. p\<lparr>pin_count := 1\<rparr>) s;
                  let s = upd_page replaceFrameId (\<lambda>p. p\<lparr>is_dirty := True\<rparr>) s;
                  Some (Some (newPageId, replaceFrameId), s)
                })
           })"

text \<open>\<open>DeletePageImpl\<close> and \<open>FlushAllPagesImpl\<close>: the bodies the source has.\<close>

definition DeletePageImpl :: "page_id_t \<Rightarrow> BufferPoolManager \<Rightarrow> bool \<times> BufferPoolManager" where
  "DeletePageImpl pid s = (False, s)"

definition FlushAllPagesImpl :: "BufferPoolManager \<Rightarrow> BufferPoolManager" where
  "FlushAllPagesImpl s = s"

section \<open>Observations and call sequences\<close>

text \<open>
  The eviction-eligible set is the set of frames the replacer holds: the membership
  test the source itself uses is the hash table (\<open>hash.count\<close>, \<open>hash.find\<close>).
\<close>

definition is_eligible :: "LRUReplacer \<Rightarrow> frame_id_t \<Rightarrow> bool" where
  "is_eligible r f = (hash r f \<noteq> None)"

definition eligible :: "LRUReplacer \<Rightarrow> frame_id_t set" where
  "eligible r = {f. is_eligible r f}"

text \<open>A disk on which every page reads as zeroes and no call has been made yet.\<close>

definition blank_disk :: "nat \<Rightarrow> DiskManager" where
  "blank_disk PAGE_SIZE =
     \<lparr>contents = (\<lambda>p. replicate PAGE_SIZE 0), next_page_id = 0, trace = []\<rparr>"

text \<open>The public operations as calls, and a caller that issues a sequence of them.\<close>

datatype pool_call =
  CallFetch page_id_t
  | CallNew
  | CallUnpinPage page_id_t bool
  | CallFlush page_id_t
  | CallDelete page_id_t
  | CallFlushAll

fun pool_step :: "nat \<Rightarrow> pool_call \<Rightarrow> BufferPoolManager \<Rightarrow> BufferPoolManager option" where
  "pool_step PAGE_SIZE (CallFetch pid) s = map_option snd (FetchPageImpl PAGE_SIZE pid s)"
| "pool_step PAGE_SIZE CallNew s = map_option snd (NewPageImpl PAGE_SIZE s)"
| "pool_step PAGE_SIZE (CallUnpinPage pid dirty) s = map_option snd (UnpinPageImpl pid dirty s)"
| "pool_step PAGE_SIZE (CallFlush pid) s = map_option snd (FlushPageImpl pid s)"
| "pool_step PAGE_SIZE (CallDelete pid) s = Some (snd (DeletePageImpl pid s))"
| "pool_step PAGE_SIZE CallFlushAll s = Some (FlushAllPagesImpl s)"

fun pool_run :: "nat \<Rightarrow> pool_call list \<Rightarrow> BufferPoolManager \<Rightarrow> BufferPoolManager option" where
  "pool_run PAGE_SIZE [] s = Some s"
| "pool_run PAGE_SIZE (c # cs) s = Option.bind (pool_step PAGE_SIZE c s) (pool_run PAGE_SIZE cs)"

section \<open>The replacer's list, abstractly\<close>

text \<open>
  The three fields of the nodes as functions of the address. A list of addresses
  \<open>follows\<close> a field when each element's field points to the next element.
\<close>

definition nxt_of :: "node_store \<Rightarrow> nat \<Rightarrow> ptr option" where
  "nxt_of h a = map_option nxt (h a)"
definition pre_of :: "node_store \<Rightarrow> nat \<Rightarrow> ptr option" where
  "pre_of h a = map_option pre (h a)"
definition key_of :: "node_store \<Rightarrow> nat \<Rightarrow> frame_id_t option" where
  "key_of h a = map_option key (h a)"

fun follows :: "(nat \<Rightarrow> ptr option) \<Rightarrow> nat list \<Rightarrow> bool" where
  "follows f (x # y # zs) = (f x = Some (Some y) \<and> follows f (y # zs))"
| "follows f [x] = True"
| "follows f [] = True"

text \<open>
  \<open>lru_inv r kas\<close>: the replacer \<open>r\<close> is a well-formed doubly linked list whose
  nodes between the two sentinels are, from the head to the tail, at the addresses
  \<open>map snd kas\<close> and hold the keys \<open>map fst kas\<close>. Following \<open>nxt\<close> from the head
  visits exactly these nodes and ends at the tail; following \<open>pre\<close> from the tail
  visits them in reverse; the hash table maps each key to its node; \<open>size\<close> counts
  them; and there are at most \<open>capacity\<close> of them.
\<close>

definition lru_inv :: "LRUReplacer \<Rightarrow> (frame_id_t \<times> nat) list \<Rightarrow> bool" where
  "lru_inv r kas =
     (case (head r, tail r) of
        (Some ha, Some ta) \<Rightarrow>
          follows (nxt_of (nodes r)) (ha # map snd kas @ [ta]) \<and>
          follows (pre_of (nodes r)) (rev (ha # map snd kas @ [ta])) \<and>
          distinct (ha # map snd kas @ [ta]) \<and>
          (\<forall>a \<in> set (ha # map snd kas @ [ta]). a < next_addr r) \<and>
          (\<forall>p \<in> set kas. key_of (nodes r) (snd p) = Some (fst p)) \<and>
          distinct (map fst kas) \<and>
          hash r = map_of kas \<and>
          unat (cur_size r) = length kas \<and>
          length kas \<le> unat (capacity r)
      | _ \<Rightarrow> False)"

text \<open>The replacer's operations as calls, and a caller that issues a sequence of them.\<close>

datatype replacer_call = CallUnpin frame_id_t | CallPin frame_id_t | CallVictim

fun replacer_step :: "replacer_call \<Rightarrow> LRUReplacer \<Rightarrow> LRUReplacer option" where
  "replacer_step (CallUnpin f) r = Unpin f r"
| "replacer_step (CallPin f) r = Pin f r"
| "replacer_step CallVictim r = map_option snd (Victim r)"

fun replacer_run :: "replacer_call list \<Rightarrow> LRUReplacer \<Rightarrow> LRUReplacer option" where
  "replacer_run [] r = Some r"
| "replacer_run (c # cs) r = Option.bind (replacer_step c r) (replacer_run cs)"

text \<open>
  \<open>became_eligible t m cs r\<close> runs the calls \<open>cs\<close>, numbered from \<open>t\<close>, and records for
  every frame the number of the last call that made it eligible, that is, after which it
  was in the eligible set and before which it was not.
\<close>

fun became_eligible :: "nat \<Rightarrow> (frame_id_t \<Rightarrow> nat) \<Rightarrow> replacer_call list \<Rightarrow> LRUReplacer \<Rightarrow> ((frame_id_t \<Rightarrow> nat) \<times> LRUReplacer) option" where
  "became_eligible t m [] r = Some (m, r)"
| "became_eligible t m (c # cs) r =
     Option.bind (replacer_step c r)
       (\<lambda>r'. became_eligible (Suc t)
              (\<lambda>f. if is_eligible r' f \<and> \<not> is_eligible r f then t else m f) cs r')"

text \<open>
  \<open>stamped t m kas\<close>: along the list from the head to the tail the stamps \<open>m\<close> of
  the keys decrease strictly, and all are below \<open>t\<close>.
\<close>

definition stamped :: "nat \<Rightarrow> (frame_id_t \<Rightarrow> nat) \<Rightarrow> (frame_id_t \<times> nat) list \<Rightarrow> bool" where
  "stamped t m kas =
     (sorted_wrt (\<lambda>p q. m (fst q) < m (fst p)) kas \<and> (\<forall>p \<in> set kas. m (fst p) < t))"

text \<open>
  Scenario B of the specification, up to the fetch: a pool of two frames, two pages
  created (identities 0 and 1), page 0 unpinned first and page 1 second.
\<close>

definition scenario_B_pool :: "BufferPoolManager option" where
  "scenario_B_pool =
     pool_run 2 [CallNew, CallNew, CallUnpinPage 0 False, CallUnpinPage 1 False]
       (new_BufferPoolManager 2 2 (blank_disk 2))"

text \<open>
  \<open>pool_inv s kas\<close>: the replacer of the pool \<open>s\<close> is well formed with the list
  \<open>kas\<close>, and every frame index the pool holds (in the replacer, in the page table, in
  the free list) is an index into \<open>pages\<close>; a replacer of capacity zero belongs to a
  pool without frames.
\<close>

definition pool_inv :: "BufferPoolManager \<Rightarrow> (frame_id_t \<times> nat) list \<Rightarrow> bool" where
  "pool_inv s kas =
     (lru_inv (replacer s) kas \<and>
      (\<forall>p \<in> set kas. frame_in_pool s (fst p)) \<and>
      (capacity (replacer s) = 0 \<longrightarrow> pages s = []) \<and>
      (\<forall>pid f. page_table s pid = Some f \<longrightarrow> frame_in_pool s f) \<and>
      (\<forall>f \<in> set (free_list s). frame_in_pool s f))"

text \<open>
  A pool of one frame after \<open>create\<close>, \<open>unpin(0, false)\<close> and \<open>fetch(0)\<close>: page 0 is
  resident and its only holder has it pinned.
\<close>

definition refetched_pool :: "BufferPoolManager option" where
  "refetched_pool =
     pool_run 2 [CallNew, CallUnpinPage 0 False, CallFetch 0]
       (new_BufferPoolManager 2 1 (blank_disk 2))"

text \<open>
  A pool of one frame after \<open>create\<close> and \<open>unpin(0, false)\<close>: page 0 is resident with pin
  count 0 and frame 0 is eligible.
\<close>

definition unpinned_pool :: "BufferPoolManager option" where
  "unpinned_pool =
     pool_run 2 [CallNew, CallUnpinPage 0 False] (new_BufferPoolManager 2 1 (blank_disk 2))"

section \<open>The stubs: delete and flush-all\<close>

text \<open>
  C4. \<open>DeletePageImpl\<close> is the stub \<open>return false\<close>: for every identity and every state
  it reports failure and changes nothing. The steps its comment lists (return true
  for an absent page, free the frame of an unpinned one) are not implemented. In the
  pool where page 0 is resident and unpinned, deleting the absent page 7 returns false,
  and deleting page 0 returns false and leaves it resident.
\<close>

theorem DeletePageImpl_always_false:
  "DeletePageImpl pid s = (False, s) \<and>
   map_option
     (\<lambda>s. (page_table s 7, fst (DeletePageImpl 7 s),
           page_table s 0, pin_count (pages s ! 0), fst (DeletePageImpl 0 s),
           page_table (snd (DeletePageImpl 0 s)) 0))
     unpinned_pool
   = Some (None, False, Some 0, 0, False, Some 0)"
proof -
  have "map_option
     (\<lambda>s. (page_table s 7, fst (DeletePageImpl 7 s),
           page_table s 0, pin_count (pages s ! 0), fst (DeletePageImpl 0 s),
           page_table (snd (DeletePageImpl 0 s)) 0))
     unpinned_pool
   = Some (None, False, Some 0, 0, False, Some 0)"
    by code_simp
  then show ?thesis by (simp add: DeletePageImpl_def)
qed

text \<open>
  C5. \<open>FlushAllPagesImpl\<close> has an empty body: the state, and with it the trace of disk
  calls, is the same after the call; no resident page is written. In the pool where
  page 0 is resident and dirty the trace holds the allocation only, before and after.
\<close>

theorem FlushAllPagesImpl_writes_nothing:
  "FlushAllPagesImpl s = s \<and>
   map_option
     (\<lambda>s. (page_table s 0, is_dirty (pages s ! 0), trace (disk_manager s),
           trace (disk_manager (FlushAllPagesImpl s))))
     unpinned_pool
   = Some (Some 0, True, [Allocate 0], [Allocate 0])"
proof -
  have "map_option
     (\<lambda>s. (page_table s 0, is_dirty (pages s ! 0), trace (disk_manager s),
           trace (disk_manager (FlushAllPagesImpl s))))
     unpinned_pool
   = Some (Some 0, True, [Allocate 0], [Allocate 0])"
    by code_simp
  then show ?thesis by (simp add: FlushAllPagesImpl_def)
qed

section \<open>The replacer keeps its list well formed\<close>

lemma follows_append: "follows f (xs @ y # ys) = (follows f (xs @ [y]) \<and> follows f (y # ys))"
  by (induction f xs rule: follows.induct) auto

lemma follows_cong: "(\<And>x. x \<in> set (butlast L) \<Longrightarrow> f x = g x) \<Longrightarrow> follows f L = follows g L"
  by (induction f L rule: follows.induct) auto

lemma follows_cong_set: "(\<And>x. x \<in> set L \<Longrightarrow> f x = g x) \<Longrightarrow> follows f L = follows g L"
  by (rule follows_cong) (auto dest: in_set_butlastD)

lemma follows_unlink:
  assumes "follows f (xs @ a # ys)" "xs \<noteq> []" "ys \<noteq> []" "distinct (xs @ a # ys)"
  shows "f (last xs) = Some (Some a)" "f a = Some (Some (hd ys))"
    "follows (f(last xs := Some (Some (hd ys)))) (xs @ ys)"
proof -
  obtain A P where xs: "xs = A @ [P]" using assms(2) by (metis append_butlast_last_id)
  obtain N B where ys: "ys = N # B" using assms(3) by (cases ys) auto
  have 1: "follows f (A @ [P])" and 2: "follows f (P # a # N # B)"
    using assms(1) follows_append[of f A P "a # N # B"] by (simp_all add: xs ys)
  show "f (last xs) = Some (Some a)" using 2 by (simp add: xs)
  show "f a = Some (Some (hd ys))" using 2 by (simp add: ys)
  let ?g = "f(P := Some (Some N))"
  have d: "P \<notin> set A" "P \<notin> set (N # B)" using assms(4) by (auto simp: xs ys)
  have "follows ?g (A @ [P]) = follows f (A @ [P])"
    by (rule follows_cong) (use d in auto)
  moreover have "follows ?g (N # B) = follows f (N # B)"
    by (rule follows_cong_set) (use d in auto)
  ultimately have "follows ?g (A @ P # N # B)"
    using 1 2 follows_append[of ?g A P "N # B"] by simp
  then show "follows (f(last xs := Some (Some (hd ys)))) (xs @ ys)" by (simp add: xs ys)
qed

lemma follows_link:
  assumes "follows f (x # ys)" "ys \<noteq> []" "n \<notin> set (x # ys)" "x \<notin> set ys"
  shows "follows (f(n := Some (Some (hd ys)), x := Some (Some n))) (x # n # ys)"
proof -
  obtain N B where ys: "ys = N # B" using assms(2) by (cases ys) auto
  let ?g = "f(n := Some (Some N), x := Some (Some n))"
  have "follows ?g (N # B) = follows f (N # B)"
    by (rule follows_cong_set) (use assms(3,4) in \<open>auto simp: ys\<close>)
  then show ?thesis using assms by (auto simp: ys)
qed

lemma follows_link_rev:
  assumes "follows g (ys @ [x])" "ys \<noteq> []" "n \<notin> set (x # ys)" "x \<notin> set ys" "distinct ys"
  shows "follows (g(n := Some (Some x), last ys := Some (Some n))) (ys @ [n, x])"
proof -
  obtain A P where ys: "ys = A @ [P]" using assms(2) by (metis append_butlast_last_id)
  let ?g = "g(n := Some (Some x), P := Some (Some n))"
  have "follows ?g (A @ [P]) = follows g (A @ [P])"
    by (rule follows_cong) (use assms(3,5) in \<open>auto simp: ys\<close>)
  moreover have "follows g (A @ [P])" using assms(1) follows_append[of g A P "[x]"] by (simp add: ys)
  moreover have "follows ?g [P, n, x]" using assms(3) by (auto simp: ys)
  ultimately show ?thesis using follows_append[of ?g A P "[n, x]"] by (simp add: ys)
qed


lemma load_simps [simp]: "load h (Some a) = h a" "load h None = None"
  by (simp_all add: load_def)

lemma store_nxt_eq: "h a = Some n \<Longrightarrow> store_nxt (Some a) v h = Some (h(a \<mapsto> n\<lparr>nxt := v\<rparr>))"
  by (simp add: store_nxt_def)

lemma store_pre_eq: "h a = Some n \<Longrightarrow> store_pre (Some a) v h = Some (h(a \<mapsto> n\<lparr>pre := v\<rparr>))"
  by (simp add: store_pre_def)

lemma map_of_remove_key:
  assumes "distinct (map fst (kx @ (k, a) # ky))"
  shows "(map_of (kx @ (k, a) # ky))(k := None) = map_of (kx @ ky)"
proof
  fix x
  have "map_of kx k = None" "map_of ky k = None"
    using assms by (auto simp: map_of_eq_None_iff image_iff)
  then show "((map_of (kx @ (k, a) # ky))(k := None)) x = map_of (kx @ ky) x"
    by (auto simp: map_add_def split: option.splits)
qed

lemma unlink_inv:
  assumes inv: "lru_inv r (kx @ (k, a) # ky)"
  shows "\<exists>na P N nP nN.
    hash r k = Some a \<and> nodes r a = Some na \<and> pre na = Some P \<and> nxt na = Some N \<and>
    nodes r P = Some nP \<and> nodes r N = Some nN \<and> P \<noteq> N \<and>
    (\<forall>h2. nxt_of h2 = (nxt_of (nodes r))(P := Some (Some N)) \<longrightarrow>
           pre_of h2 = (pre_of (nodes r))(N := Some (Some P)) \<longrightarrow>
           key_of h2 = key_of (nodes r) \<longrightarrow>
           lru_inv (r\<lparr>nodes := h2, hash := (hash r)(k := None), cur_size := cur_size r - 1\<rparr>) (kx @ ky))"
proof -
  let ?kas = "kx @ (k, a) # ky"
  let ?h = "nodes r"
  obtain ha ta where ht: "head r = Some ha" "tail r = Some ta"
    using inv by (auto simp: lru_inv_def split: option.splits)
  let ?xs = "ha # map snd kx" and ?ys = "map snd ky @ [ta]"
  have fw: "follows (nxt_of ?h) (?xs @ a # ?ys)"
    and bw: "follows (pre_of ?h) (rev ?ys @ a # rev ?xs)"
    and dist: "distinct (?xs @ a # ?ys)"
    and below: "\<forall>b \<in> set (?xs @ a # ?ys). b < next_addr r"
    and keys: "\<forall>p \<in> set ?kas. key_of ?h (snd p) = Some (fst p)"
    and dk: "distinct (map fst ?kas)"
    and hash: "hash r = map_of ?kas"
    and sz: "unat (cur_size r) = length ?kas"
    and cap: "length ?kas \<le> unat (capacity r)"
    using inv by (simp_all add: lru_inv_def ht)
  define P where "P = last ?xs"
  define N where "N = hd ?ys"
  have f1: "nxt_of ?h P = Some (Some a)" and f2: "nxt_of ?h a = Some (Some N)"
    and f3: "follows ((nxt_of ?h)(P := Some (Some N))) (?xs @ ?ys)"
    using follows_unlink[OF fw _ _ dist] by (simp_all add: P_def N_def)
  have dist': "distinct (rev ?ys @ a # rev ?xs)" using dist by auto
  have lr: "last (rev ?ys) = N" "hd (rev ?xs) = P"
    by (simp_all add: N_def P_def last_rev hd_rev)
  have b1: "pre_of ?h N = Some (Some a)" and b2: "pre_of ?h a = Some (Some P)"
    and b3: "follows ((pre_of ?h)(N := Some (Some P))) (rev ?ys @ rev ?xs)"
    using follows_unlink[OF bw _ _ dist'] unfolding lr by simp_all
  have Pin: "P \<in> set ?xs" unfolding P_def by (rule last_in_set) simp
  have Nin: "N \<in> set ?ys" unfolding N_def by (rule hd_in_set) simp
  have PN: "P \<noteq> N" using dist Pin Nin by auto
  obtain na where na: "?h a = Some na" "nxt na = Some N" "pre na = Some P"
    using f2 b2 by (auto simp: nxt_of_def pre_of_def)
  obtain nP where nP: "?h P = Some nP" using f1 by (auto simp: nxt_of_def)
  obtain nN where nN: "?h N = Some nN" using b1 by (auto simp: pre_of_def)
  have hk: "hash r k = Some a" unfolding hash using dk by (intro map_of_is_SomeI) auto
  have szpos: "cur_size r \<noteq> 0" using sz by (auto simp: unat_eq_0)
  have sz': "unat (cur_size r - 1) = length (kx @ ky)"
    using sz szpos by (simp add: unat_minus_one)
  have "\<forall>h2. nxt_of h2 = (nxt_of (nodes r))(P := Some (Some N)) \<longrightarrow>
           pre_of h2 = (pre_of (nodes r))(N := Some (Some P)) \<longrightarrow>
           key_of h2 = key_of (nodes r) \<longrightarrow>
           lru_inv (r\<lparr>nodes := h2, hash := (hash r)(k := None), cur_size := cur_size r - 1\<rparr>) (kx @ ky)"
  proof (intro allI impI)
    fix h2
    assume n2: "nxt_of h2 = (nxt_of ?h)(P := Some (Some N))"
      and p2: "pre_of h2 = (pre_of ?h)(N := Some (Some P))"
      and k2: "key_of h2 = key_of ?h"
    have "follows (pre_of h2) (rev (ha # map snd (kx @ ky) @ [ta]))"
      using b3 by (simp add: p2)
    moreover have "follows (nxt_of h2) (ha # map snd (kx @ ky) @ [ta])"
      using f3 by (simp add: n2)
    moreover have "(hash r)(k := None) = map_of (kx @ ky)"
      unfolding hash using dk by (rule map_of_remove_key)
    ultimately show "lru_inv (r\<lparr>nodes := h2, hash := (hash r)(k := None), cur_size := cur_size r - 1\<rparr>) (kx @ ky)"
      using dist below keys dk sz' cap
      by (auto simp: lru_inv_def ht k2)
  qed
  then show ?thesis using hk na nP nN PN by blast
qed


lemma erase_inv:
  assumes inv: "lru_inv r (kx @ (k, a) # ky)"
  shows "\<exists>r'. erase k r = Some r' \<and> lru_inv r' (kx @ ky) \<and>
              capacity r' = capacity r \<and> next_addr r' = next_addr r"
proof -
  from unlink_inv[OF inv] obtain na P N nP nN where
    f: "hash r k = Some a" "nodes r a = Some na" "pre na = Some P" "nxt na = Some N"
      "nodes r P = Some nP" "nodes r N = Some nN" "P \<noteq> N"
    and step: "\<And>h2. nxt_of h2 = (nxt_of (nodes r))(P := Some (Some N)) \<Longrightarrow>
           pre_of h2 = (pre_of (nodes r))(N := Some (Some P)) \<Longrightarrow>
           key_of h2 = key_of (nodes r) \<Longrightarrow>
           lru_inv (r\<lparr>nodes := h2, hash := (hash r)(k := None), cur_size := cur_size r - 1\<rparr>) (kx @ ky)"
    by blast
  let ?h1 = "(nodes r)(P \<mapsto> nP\<lparr>nxt := Some N\<rparr>)"
  let ?h2 = "?h1(N \<mapsto> nN\<lparr>pre := Some P\<rparr>)"
  have e: "erase k r = Some (r\<lparr>nodes := ?h2, hash := (hash r)(k := None), cur_size := cur_size r - 1\<rparr>)"
    using f by (simp add: erase_def store_nxt_eq store_pre_eq)
  have "nxt_of ?h2 = (nxt_of (nodes r))(P := Some (Some N))"
    using f by (auto simp: nxt_of_def fun_eq_iff)
  moreover have "pre_of ?h2 = (pre_of (nodes r))(N := Some (Some P))"
    using f by (auto simp: pre_of_def fun_eq_iff)
  moreover have "key_of ?h2 = key_of (nodes r)"
    using f by (auto simp: key_of_def fun_eq_iff)
  ultimately show ?thesis using step e by simp
qed

lemma Pin_present_inv:
  assumes inv: "lru_inv r (kx @ (k, a) # ky)"
  shows "\<exists>r'. Pin k r = Some r' \<and> lru_inv r' (kx @ ky) \<and>
              capacity r' = capacity r \<and> next_addr r' = next_addr r"
proof -
  from unlink_inv[OF inv] obtain na P N nP nN where
    f: "hash r k = Some a" "nodes r a = Some na" "pre na = Some P" "nxt na = Some N"
      "nodes r P = Some nP" "nodes r N = Some nN" "P \<noteq> N"
    and step: "\<And>h2. nxt_of h2 = (nxt_of (nodes r))(P := Some (Some N)) \<Longrightarrow>
           pre_of h2 = (pre_of (nodes r))(N := Some (Some P)) \<Longrightarrow>
           key_of h2 = key_of (nodes r) \<Longrightarrow>
           lru_inv (r\<lparr>nodes := h2, hash := (hash r)(k := None), cur_size := cur_size r - 1\<rparr>) (kx @ ky)"
    by blast
  let ?h1 = "(nodes r)(N \<mapsto> nN\<lparr>pre := Some P\<rparr>)"
  let ?h2 = "?h1(P \<mapsto> nP\<lparr>nxt := Some N\<rparr>)"
  have e: "Pin k r = Some (r\<lparr>nodes := ?h2, hash := (hash r)(k := None), cur_size := cur_size r - 1\<rparr>)"
    using f by (simp add: Pin_def store_nxt_eq store_pre_eq)
  have "nxt_of ?h2 = (nxt_of (nodes r))(P := Some (Some N))"
    using f by (auto simp: nxt_of_def fun_eq_iff)
  moreover have "pre_of ?h2 = (pre_of (nodes r))(N := Some (Some P))"
    using f by (auto simp: pre_of_def fun_eq_iff)
  moreover have "key_of ?h2 = key_of (nodes r)"
    using f by (auto simp: key_of_def fun_eq_iff)
  ultimately show ?thesis using step e by simp
qed

lemma lru_inv_hash: "lru_inv r kas \<Longrightarrow> hash r = map_of kas"
  by (auto simp: lru_inv_def split: option.splits)

lemma lru_inv_eligible: "lru_inv r kas \<Longrightarrow> is_eligible r f = (f \<in> fst ` set kas)"
  by (simp add: is_eligible_def lru_inv_hash map_of_eq_None_iff)

lemma lru_inv_size: "lru_inv r kas \<Longrightarrow> unat (cur_size r) = length kas \<and> length kas \<le> unat (capacity r)"
  by (auto simp: lru_inv_def split: option.splits)

lemma lru_inv_split:
  assumes "lru_inv r kas" "is_eligible r k"
  obtains kx a ky where "kas = kx @ (k, a) # ky"
proof -
  from assms have "k \<in> fst ` set kas" by (simp add: lru_inv_eligible)
  then obtain a where "(k, a) \<in> set kas" by auto
  then show ?thesis using that by (auto dest: split_list)
qed

lemma lru_inv_last:
  assumes inv: "lru_inv r (kx @ [(k, a)])"
  shows "\<exists>tn an. load (nodes r) (tail r) = Some tn \<and> load (nodes r) (pre tn) = Some an \<and> key an = k"
proof -
  obtain ha ta where ht: "head r = Some ha" "tail r = Some ta"
    using inv by (auto simp: lru_inv_def split: option.splits)
  have "follows (pre_of (nodes r)) (ta # a # rev (ha # map snd kx))"
    and "key_of (nodes r) a = Some k"
    using inv by (simp_all add: lru_inv_def ht)
  then show ?thesis
    by (auto simp: ht pre_of_def key_of_def)
qed

lemma new_LRUReplacer_inv: "lru_inv (new_LRUReplacer n) []"
  by (simp add: lru_inv_def new_LRUReplacer_def nxt_of_def pre_of_def)

lemma Pin_absent: "\<not> is_eligible r k \<Longrightarrow> Pin k r = Some r"
  by (simp add: Pin_def is_eligible_def)


lemma follows_last2:
  assumes "follows g (ys @ [x])" "ys \<noteq> []"
  shows "g (last ys) = Some (Some x)"
proof -
  obtain A P where ys: "ys = A @ [P]" using assms(2) by (metis append_butlast_last_id)
  then show ?thesis using assms(1) follows_append[of g A P "[x]"] by simp
qed

lemma insert_frame_inv:
  assumes inv: "lru_inv r kas" and fresh: "k \<notin> fst ` set kas"
    and room: "length kas < unat (capacity r)"
  shows "\<exists>r'. insert_frame k r = Some r' \<and> lru_inv r' ((k, next_addr r) # kas) \<and>
              capacity r' = capacity r \<and> next_addr r' = Suc (next_addr r)"
proof -
  let ?h = "nodes r"
  let ?new = "next_addr r"
  obtain ha ta where ht: "head r = Some ha" "tail r = Some ta"
    using inv by (auto simp: lru_inv_def split: option.splits)
  let ?ys = "map snd kas @ [ta]"
  have fw: "follows (nxt_of ?h) (ha # ?ys)"
    and bw: "follows (pre_of ?h) (rev ?ys @ [ha])"
    and dist: "distinct (ha # ?ys)"
    and below: "\<forall>b \<in> set (ha # ?ys). b < ?new"
    and keys: "\<forall>p \<in> set kas. key_of ?h (snd p) = Some (fst p)"
    and dk: "distinct (map fst kas)"
    and hash: "hash r = map_of kas"
    and sz: "unat (cur_size r) = length kas"
    using inv by (simp_all add: lru_inv_def ht)
  define N where "N = hd ?ys"
  obtain B where ys: "?ys = N # B" unfolding N_def by (cases ?ys) auto
  have newL: "?new \<notin> set (ha # ?ys)" using below by auto
  have neq: "N \<noteq> ha" "N \<noteq> ?new" "ha \<noteq> ?new"
    using dist newL unfolding ys by auto
  have "nxt_of ?h ha = Some (Some N)" using fw unfolding ys by simp
  then obtain nh where nh: "?h ha = Some nh" "nxt nh = Some N" by (auto simp: nxt_of_def)
  have lastN: "last (rev ?ys) = N" by (simp add: N_def last_rev)
  have "pre_of ?h N = Some (Some ha)" using follows_last2[OF bw] lastN by simp
  then obtain nN where nN: "?h N = Some nN" by (auto simp: pre_of_def)
  let ?node = "\<lparr>key = k, val = 0, nxt = Some N, pre = Some ha\<rparr>"
  let ?h4 = "(?h(?new \<mapsto> ?node, ha \<mapsto> nh\<lparr>nxt := Some ?new\<rparr>, N \<mapsto> nN\<lparr>pre := Some ?new\<rparr>))"
  let ?r' = "r\<lparr>nodes := ?h4, next_addr := ?new + 1, hash := (hash r)(k \<mapsto> ?new),
                cur_size := cur_size r + 1\<rparr>"
  have e: "insert_frame k r = Some ?r'"
    using nh nN neq
    by (simp add: insert_frame_def ht store_nxt_def store_pre_def Let_def fun_upd_twist)
  have n4: "nxt_of ?h4 = (nxt_of ?h)(?new := Some (Some (hd ?ys)), ha := Some (Some ?new))"
    using nh nN neq by (auto simp: nxt_of_def fun_eq_iff N_def)
  have p4: "pre_of ?h4 = (pre_of ?h)(?new := Some (Some ha), last (rev ?ys) := Some (Some ?new))"
    using nh nN neq unfolding lastN by (auto simp: pre_of_def fun_eq_iff)
  have k4: "key_of ?h4 = (key_of ?h)(?new := Some k)"
    using nh nN neq by (auto simp: key_of_def fun_eq_iff)
  have "follows (nxt_of ?h4) (ha # ?new # ?ys)"
    unfolding n4 by (rule follows_link[OF fw]) (use dist newL in auto)
  moreover have "follows (pre_of ?h4) (rev ?ys @ [?new, ha])"
    unfolding p4 by (rule follows_link_rev[OF bw]) (use dist newL in auto)
  moreover have "unat (cur_size r + 1) = Suc (length kas)"
  proof -
    have "unat (cur_size r) + 1 < 2 ^ 64"
      using room sz unsigned_less[of "capacity r", where 'a = nat] by simp
    then show ?thesis using sz by (simp add: unat_word_ariths)
  qed
  moreover have "\<forall>p \<in> set kas. snd p \<noteq> ?new" using below by auto
  ultimately have "lru_inv ?r' ((k, ?new) # kas)"
    using dist below keys dk fresh room newL
    by (auto simp: lru_inv_def ht k4 hash less_Suc_eq)
  then show ?thesis using e by simp
qed


lemma lru_inv_empty: "lru_inv r kas \<Longrightarrow> (cur_size r = 0) = (kas = [])"
  by (auto simp: lru_inv_def unat_eq_0[symmetric] split: option.splits)

lemma lru_inv_full: "lru_inv r kas \<Longrightarrow> (cur_size r = capacity r) = (length kas = unat (capacity r))"
  by (auto simp: lru_inv_def word_unat_eq_iff split: option.splits)

lemma Victim_empty: "lru_inv r [] \<Longrightarrow> Victim r = Some (None, r)"
  by (simp add: Victim_def lru_inv_empty)

lemma Victim_inv:
  assumes inv: "lru_inv r (kx @ [(k, a)])"
  shows "\<exists>r'. Victim r = Some (Some k, r') \<and> lru_inv r' kx \<and>
              capacity r' = capacity r \<and> next_addr r' = next_addr r"
proof -
  have "cur_size r \<noteq> 0" using lru_inv_empty[OF inv] by simp
  moreover obtain tn an where "load (nodes r) (tail r) = Some tn"
    "load (nodes r) (pre tn) = Some an" "key an = k"
    using lru_inv_last[OF inv] by blast
  moreover obtain r' where "erase k r = Some r'" "lru_inv r' kx"
    "capacity r' = capacity r" "next_addr r' = next_addr r"
    using erase_inv[of r kx k a "[]"] inv by auto
  ultimately show ?thesis by (simp add: Victim_def)
qed

lemma Unpin_present: "is_eligible r f \<Longrightarrow> Unpin f r = Some r"
  by (auto simp: Unpin_def is_eligible_def)

lemma Unpin_room_inv:
  assumes inv: "lru_inv r kas" and absent: "\<not> is_eligible r f"
    and room: "length kas < unat (capacity r)"
  shows "\<exists>r'. Unpin f r = Some r' \<and> lru_inv r' ((f, next_addr r) # kas) \<and>
              capacity r' = capacity r \<and> next_addr r' = Suc (next_addr r)"
proof -
  have "cur_size r \<noteq> capacity r" using lru_inv_full[OF inv] room by simp
  moreover have "hash r f = None" using absent by (simp add: is_eligible_def)
  moreover have "f \<notin> fst ` set kas" using absent lru_inv_eligible[OF inv] by simp
  ultimately show ?thesis using insert_frame_inv[OF inv _ room, of f] by (simp add: Unpin_def)
qed

lemma Unpin_full_inv:
  assumes inv: "lru_inv r (kx @ [(k, a)])" and absent: "\<not> is_eligible r f"
    and full: "Suc (length kx) = unat (capacity r)"
  shows "\<exists>r'. Unpin f r = Some r' \<and> lru_inv r' ((f, next_addr r) # kx) \<and>
              capacity r' = capacity r \<and> next_addr r' = Suc (next_addr r)"
proof -
  have "cur_size r = capacity r" using lru_inv_full[OF inv] full by simp
  moreover have "hash r f = None" using absent by (simp add: is_eligible_def)
  moreover obtain tn an where "load (nodes r) (tail r) = Some tn"
    "load (nodes r) (pre tn) = Some an" "key an = k"
    using lru_inv_last[OF inv] by blast
  moreover obtain r1 where r1: "erase k r = Some r1" "lru_inv r1 kx"
    "capacity r1 = capacity r" "next_addr r1 = next_addr r"
    using erase_inv[of r kx k a "[]"] inv by auto
  moreover have "f \<notin> fst ` set kx" using absent lru_inv_eligible[OF inv] by simp
  then obtain r' where "insert_frame f r1 = Some r'" "lru_inv r' ((f, next_addr r1) # kx)"
    "capacity r' = capacity r1" "next_addr r' = Suc (next_addr r1)"
    using insert_frame_inv[OF r1(2), of f] full r1(3) by auto
  ultimately show ?thesis by (simp add: Unpin_def)
qed

lemma Unpin_cap0: 
  assumes "lru_inv r []" "capacity r = 0" 
  shows "Unpin f r = None"
proof -
  have "hash r = (\<lambda>k. None)" "cur_size r = 0" using assms(1) lru_inv_hash[OF assms(1)] lru_inv_empty[OF assms(1)] by auto
  then show ?thesis using assms(2)
    by (simp add: Unpin_def erase_def Let_def Option.bind_eq_None_conv)
qed

lemma replacer_step_inv:
  assumes inv: "lru_inv r kas" and step: "replacer_step c r = Some r'"
  shows "\<exists>kas'. lru_inv r' kas' \<and> capacity r' = capacity r"
proof (cases c)
  case (CallUnpin f)
  show ?thesis
  proof (cases "is_eligible r f")
    case True
    then show ?thesis using inv step CallUnpin by (auto simp: Unpin_present)
  next
    case False
    show ?thesis
    proof (cases "length kas < unat (capacity r)")
      case True
      then show ?thesis using Unpin_room_inv[OF inv False True] step CallUnpin by auto
    next
      case full: False
      then have len: "length kas = unat (capacity r)" using lru_inv_size[OF inv] by simp
      show ?thesis
      proof (cases kas rule: rev_cases)
        case Nil
        then have "Unpin f r = None" using Unpin_cap0[of r f] inv len by (simp add: unat_eq_0)
        then show ?thesis using step CallUnpin by simp
      next
        case (snoc kx p)
        obtain k a where p: "p = (k, a)" by (cases p)
        show ?thesis using Unpin_full_inv[of r kx k a f] inv False len step CallUnpin
          by (auto simp: snoc p)
      qed
    qed
  qed
next
  case (CallPin f)
  show ?thesis
  proof (cases "is_eligible r f")
    case True
    obtain kx a ky where "kas = kx @ (f, a) # ky" by (rule lru_inv_split[OF inv True])
    then show ?thesis using Pin_present_inv[of r kx f a ky] inv step CallPin by auto
  next
    case False
    then show ?thesis using inv step CallPin by (auto simp: Pin_absent)
  qed
next
  case CallVictim
  show ?thesis
  proof (cases kas rule: rev_cases)
    case Nil
    then show ?thesis using Victim_empty[of r] inv step CallVictim by auto
  next
    case (snoc kx p)
    obtain k a where p: "p = (k, a)" by (cases p)
    show ?thesis using Victim_inv[of r kx k a] inv step CallVictim by (auto simp: snoc p)
  qed
qed

lemma replacer_run_inv:
  "replacer_run cs r = Some r' \<Longrightarrow> lru_inv r kas \<Longrightarrow> \<exists>kas'. lru_inv r' kas' \<and> capacity r' = capacity r"
proof (induction cs arbitrary: r kas)
  case Nil
  then show ?case by auto
next
  case (Cons c cs)
  from Cons.prems(1) obtain r1 where s: "replacer_step c r = Some r1" and rest: "replacer_run cs r1 = Some r'"
    by (auto simp: Option.bind_eq_Some_conv)
  from replacer_step_inv[OF Cons.prems(2) s] obtain k1 where "lru_inv r1 k1" "capacity r1 = capacity r" by auto
  then show ?case using Cons.IH[OF rest] by auto
qed


lemma stamped_cong:
  "(\<And>p. p \<in> set kas \<Longrightarrow> m' (fst p) = m (fst p)) \<Longrightarrow> stamped t m' kas = stamped t m kas"
proof (induction kas)
  case Nil
  then show ?case by (simp add: stamped_def)
next
  case (Cons p kas)
  then have "stamped t m' kas = stamped t m kas" by simp
  then show ?case using Cons.prems by (auto simp: stamped_def)
qed

lemma stamped_mono: "stamped t m kas \<Longrightarrow> t \<le> t' \<Longrightarrow> stamped t' m kas"
  by (fastforce simp: stamped_def)

lemma stamped_remove: "stamped t m (kx @ p # ky) \<Longrightarrow> stamped t m (kx @ ky)"
  by (auto simp: stamped_def sorted_wrt_append)

lemma stamped_butlast: "stamped t m (kx @ [p]) \<Longrightarrow> stamped t m kx"
  using stamped_remove[of t m kx p "[]"] by simp

lemma stamped_cons: "stamped t m kas \<Longrightarrow> m f = t \<Longrightarrow> stamped (Suc t) m ((f, a) # kas)"
  by (fastforce simp: stamped_def)

lemma stamped_last: "stamped t m (kx @ [(k, a)]) \<Longrightarrow> p \<in> set kx \<Longrightarrow> m k < m (fst p)"
  by (auto simp: stamped_def sorted_wrt_append)

lemma stamped_sub:
  assumes st: "stamped t m kb" and inv: "lru_inv r kas" and inv': "lru_inv r' kb"
    and sub: "set kb \<subseteq> set kas"
  shows "stamped (Suc t) (\<lambda>f. if is_eligible r' f \<and> \<not> is_eligible r f then t else m f) kb"
proof -
  have "stamped (Suc t) (\<lambda>f. if is_eligible r' f \<and> \<not> is_eligible r f then t else m f) kb
        = stamped (Suc t) m kb"
    by (rule stamped_cong) (use sub in \<open>auto simp: lru_inv_eligible[OF inv]\<close>)
  then show ?thesis using stamped_mono[OF st, of "Suc t"] by simp
qed

lemma stamped_new:
  assumes st: "stamped t m kb" and inv: "lru_inv r kas" and inv': "lru_inv r' ((f, a) # kb)"
    and sub: "set kb \<subseteq> set kas" and absent: "\<not> is_eligible r f"
  shows "stamped (Suc t) (\<lambda>g. if is_eligible r' g \<and> \<not> is_eligible r g then t else m g) ((f, a) # kb)"
proof -
  let ?m = "\<lambda>g. if is_eligible r' g \<and> \<not> is_eligible r g then t else m g"
  have "stamped t ?m kb = stamped t m kb"
    by (rule stamped_cong) (use sub in \<open>auto simp: lru_inv_eligible[OF inv]\<close>)
  moreover have "?m f = t" using absent by (simp add: lru_inv_eligible[OF inv'])
  ultimately show ?thesis using st stamped_cons[of t ?m kb f a] by simp
qed

lemma replacer_step_stamped:
  assumes inv: "lru_inv r kas" and cap: "capacity r \<noteq> 0" and st: "stamped t m kas"
  shows "\<exists>r' kas'. replacer_step c r = Some r' \<and> lru_inv r' kas' \<and> capacity r' = capacity r \<and>
           stamped (Suc t) (\<lambda>f. if is_eligible r' f \<and> \<not> is_eligible r f then t else m f) kas'"
proof (cases c)
  case (CallUnpin f)
  show ?thesis
  proof (cases "is_eligible r f")
    case True
    then show ?thesis using inv stamped_sub[OF st inv inv] CallUnpin
      by (auto simp: Unpin_present)
  next
    case False
    show ?thesis
    proof (cases "length kas < unat (capacity r)")
      case True
      from Unpin_room_inv[OF inv False True] obtain r' where
        r': "Unpin f r = Some r'" "lru_inv r' ((f, next_addr r) # kas)" "capacity r' = capacity r"
        by auto
      show ?thesis using r' stamped_new[OF st inv r'(2) _ False] CallUnpin by auto
    next
      case full: False
      then have len: "length kas = unat (capacity r)" using lru_inv_size[OF inv] by simp
      then have "kas \<noteq> []" using cap by (auto simp: unat_eq_0)
      then obtain kx k a where kas: "kas = kx @ [(k, a)]"
        by (cases kas rule: rev_cases) auto
      from Unpin_full_inv[of r kx k a f] inv False len obtain r' where
        r': "Unpin f r = Some r'" "lru_inv r' ((f, next_addr r) # kx)" "capacity r' = capacity r"
        by (auto simp: kas)
      have "stamped t m kx" using st stamped_butlast unfolding kas by blast
      from stamped_new[OF this inv r'(2) _ False] show ?thesis using r' CallUnpin
        by (auto simp: kas)
    qed
  qed
next
  case (CallPin f)
  show ?thesis
  proof (cases "is_eligible r f")
    case True
    obtain kx a ky where kas: "kas = kx @ (f, a) # ky" by (rule lru_inv_split[OF inv True])
    from Pin_present_inv[of r kx f a ky] inv obtain r' where
      r': "Pin f r = Some r'" "lru_inv r' (kx @ ky)" "capacity r' = capacity r"
      by (auto simp: kas)
    have "stamped t m (kx @ ky)" using st stamped_remove unfolding kas by blast
    from stamped_sub[OF this inv r'(2)] show ?thesis using r' CallPin by (auto simp: kas)
  next
    case False
    then show ?thesis using inv stamped_sub[OF st inv inv] CallPin
      by (auto simp: Pin_absent)
  qed
next
  case CallVictim
  show ?thesis
  proof (cases kas rule: rev_cases)
    case Nil
    then show ?thesis using Victim_empty[of r] inv stamped_sub[OF st inv inv] CallVictim by auto
  next
    case (snoc kx p)
    obtain k a where p: "p = (k, a)" by (cases p)
    from Victim_inv[of r kx k a] inv obtain r' where
      r': "Victim r = Some (Some k, r')" "lru_inv r' kx" "capacity r' = capacity r"
      by (auto simp: snoc p)
    have "stamped t m kx" using st stamped_butlast unfolding snoc by blast
    from stamped_sub[OF this inv r'(2)] show ?thesis using r' CallVictim by (auto simp: snoc)
  qed
qed

lemma became_eligible_inv:
  "lru_inv r kas \<Longrightarrow> capacity r \<noteq> 0 \<Longrightarrow> stamped t m kas \<Longrightarrow>
   \<exists>m' r' kas'. became_eligible t m cs r = Some (m', r') \<and> lru_inv r' kas' \<and>
      capacity r' = capacity r \<and> stamped (t + length cs) m' kas'"
proof (induction cs arbitrary: r kas t m)
  case Nil
  then show ?case by auto
next
  case (Cons c cs)
  let ?m = "\<lambda>r' f. if is_eligible r' f \<and> \<not> is_eligible r f then t else m f"
  from replacer_step_stamped[OF Cons.prems, of c] obtain r1 k1 where
    s: "replacer_step c r = Some r1" "lru_inv r1 k1" "capacity r1 = capacity r"
       "stamped (Suc t) (?m r1) k1"
    by blast
  have "capacity r1 \<noteq> 0" using s(3) Cons.prems(2) by simp
  from Cons.IH[OF s(2) this s(4), of ] show ?case using s(1,3) by auto
qed

lemma Victim_stamped:
  assumes inv: "lru_inv r kas" and st: "stamped t m kas"
  shows "(eligible r = {} \<longrightarrow> Victim r = Some (None, r)) \<and>
         (eligible r \<noteq> {} \<longrightarrow>
            (\<exists>v r'. Victim r = Some (Some v, r') \<and> v \<in> eligible r \<and>
               (\<forall>g \<in> eligible r. g \<noteq> v \<longrightarrow> m v < m g) \<and>
               eligible r' = eligible r - {v}))"
proof (cases kas rule: rev_cases)
  case Nil
  then show ?thesis using Victim_empty[of r] inv
    by (auto simp: eligible_def lru_inv_eligible[OF inv])
next
  case (snoc kx p)
  obtain k a where p: "p = (k, a)" by (cases p)
  from Victim_inv[of r kx k a] inv obtain r' where
    r': "Victim r = Some (Some k, r')" "lru_inv r' kx"
    by (auto simp: snoc p)
  have dk: "distinct (map fst kas)" using inv by (auto simp: lru_inv_def split: option.splits)
  have e: "eligible r = fst ` set kas" "eligible r' = fst ` set kx"
    by (auto simp: eligible_def lru_inv_eligible[OF inv] lru_inv_eligible[OF r'(2)])
  have "k \<notin> fst ` set kx" using dk by (auto simp: snoc p)
  then have "eligible r' = eligible r - {k}" unfolding e by (auto simp: snoc p)
  moreover have "\<forall>g \<in> eligible r. g \<noteq> k \<longrightarrow> m k < m g"
    using stamped_last[of t m kx k a] st unfolding e by (auto simp: snoc p)
  moreover have "k \<in> eligible r" unfolding e by (auto simp: snoc p)
  ultimately show ?thesis using r'(1) by auto
qed

lemma stamped_Nil: "stamped t m []"
  by (simp add: stamped_def)

lemma replacer_step_stamped_if:
  assumes inv: "lru_inv r kas" and st: "stamped t m kas" and step: "replacer_step c r = Some r'"
  shows "\<exists>kas'. lru_inv r' kas' \<and>
           stamped (Suc t) (\<lambda>f. if is_eligible r' f \<and> \<not> is_eligible r f then t else m f) kas'"
proof (cases "capacity r = 0")
  case False
  from replacer_step_stamped[OF inv False st, of c] step show ?thesis by auto
next
  case True
  from replacer_step_inv[OF inv step] obtain kas' where
    k: "lru_inv r' kas'" "capacity r' = capacity r" by blast
  have "length kas' \<le> unat (capacity r')" using lru_inv_size[OF k(1)] by simp
  then have "kas' = []" using True k(2) by simp
  then show ?thesis using k(1) stamped_Nil by blast
qed

lemma became_eligible_stamped:
  "lru_inv r kas \<Longrightarrow> stamped t m kas \<Longrightarrow> became_eligible t m cs r = Some (m', r') \<Longrightarrow>
   \<exists>kas' t'. lru_inv r' kas' \<and> stamped t' m' kas'"
proof (induction cs arbitrary: r kas t m)
  case Nil
  then show ?case by auto
next
  case (Cons c cs)
  from Cons.prems(3) obtain r1 where
    s: "replacer_step c r = Some r1"
    and rest: "became_eligible (Suc t)
                 (\<lambda>f. if is_eligible r1 f \<and> \<not> is_eligible r f then t else m f) cs r1 = Some (m', r')"
    by (auto simp: Option.bind_eq_Some_conv)
  from replacer_step_stamped_if[OF Cons.prems(1,2) s] obtain k1 where
    "lru_inv r1 k1"
    "stamped (Suc t) (\<lambda>f. if is_eligible r1 f \<and> \<not> is_eligible r f then t else m f) k1"
    by blast
  from Cons.IH[OF this rest] show ?case .
qed

section \<open>Evaluation of concrete call sequences\<close>

lemmas replacer_defs = new_LRUReplacer_def Unpin_def Pin_def Victim_def insert_frame_def erase_def
  store_nxt_def store_pre_def is_eligible_def Size_def

lemma scenario_B_eval:
  "Option.bind scenario_B_pool
     (\<lambda>s. map_option
        (\<lambda>(got, s'). (got, page_table s 0, page_table s 1,
                      page_table s' 0, page_table s' 1, page_table s' 2,
                      trace (disk_manager s')))
        (FetchPageImpl 2 2 s))
   = Some (Some 0, Some 0, Some 1, None, Some 1, Some 0,
           [Allocate 0, Allocate 1, Write 0 [0, 0], Read 2])"
  by code_simp

section \<open>The replacer's victim and mark-evictable operations\<close>

text \<open>
  C7. Take any sequence of \<open>Unpin\<close>, \<open>Pin\<close> and \<open>Victim\<close> calls on a new replacer
  that returns. \<open>Victim\<close> called next returns false with the state unchanged when no
  frame is eligible; otherwise it returns an eligible frame \<open>v\<close> that became eligible
  before every other eligible frame (the number of the call that made \<open>v\<close> eligible is
  the smallest), and removes exactly \<open>v\<close> from the eligible set. Each call makes at most
  one frame eligible, so there are no ties. On a replacer of capacity at least one every
  sequence of calls returns.
  Scenario B, on a pool of two frames: pages 0 and 1 are created, page 0 is unpinned and
  then page 1; fetching page 2 reuses frame 0, the frame of page 0, writes page 0 to the
  disk first (a created page is dirty) and leaves page 1 resident.
\<close>

theorem Victim_returns_oldest:
  "(\<forall>m r. became_eligible 0 (\<lambda>f. 0) cs (new_LRUReplacer cap) = Some (m, r) \<longrightarrow>
      (eligible r = {} \<longrightarrow> Victim r = Some (None, r)) \<and>
      (eligible r \<noteq> {} \<longrightarrow>
         (\<exists>v r'. Victim r = Some (Some v, r') \<and> v \<in> eligible r \<and>
            (\<forall>g \<in> eligible r. g \<noteq> v \<longrightarrow> m v < m g) \<and>
            eligible r' = eligible r - {v}))) \<and>
   (cap \<noteq> 0 \<longrightarrow> (\<exists>m r. became_eligible 0 (\<lambda>f. 0) cs (new_LRUReplacer cap) = Some (m, r))) \<and>
   Option.bind scenario_B_pool
     (\<lambda>s. map_option
        (\<lambda>(got, s'). (got, page_table s 0, page_table s 1,
                      page_table s' 0, page_table s' 1, page_table s' 2,
                      trace (disk_manager s')))
        (FetchPageImpl 2 2 s))
   = Some (Some 0, Some 0, Some 1, None, Some 1, Some 0,
           [Allocate 0, Allocate 1, Write 0 [0, 0], Read 2])"
proof -
  have 1: "(eligible r = {} \<longrightarrow> Victim r = Some (None, r)) \<and>
      (eligible r \<noteq> {} \<longrightarrow>
         (\<exists>v r'. Victim r = Some (Some v, r') \<and> v \<in> eligible r \<and>
            (\<forall>g \<in> eligible r. g \<noteq> v \<longrightarrow> m v < m g) \<and>
            eligible r' = eligible r - {v}))"
    if run: "became_eligible 0 (\<lambda>f. 0) cs (new_LRUReplacer cap) = Some (m, r)" for m r
  proof -
    from became_eligible_stamped[OF new_LRUReplacer_inv stamped_Nil run]
    obtain kas t where "lru_inv r kas" "stamped t m kas" by blast
    then show ?thesis by (rule Victim_stamped)
  qed
  have 2: "\<exists>m r. became_eligible 0 (\<lambda>f. 0) cs (new_LRUReplacer cap) = Some (m, r)"
    if "cap \<noteq> 0"
  proof -
    have "capacity (new_LRUReplacer cap) \<noteq> 0" using that by (simp add: new_LRUReplacer_def)
    from became_eligible_inv[OF new_LRUReplacer_inv this stamped_Nil, of 0 "\<lambda>f. 0" cs]
    show ?thesis by blast
  qed
  show ?thesis
    apply (intro conjI allI impI)
        apply (erule 1[THEN conjunct1, rule_format], assumption)
       apply (erule 1[THEN conjunct2, rule_format], assumption)
      apply (erule 2)
     apply (rule scenario_B_eval)
    done
qed

lemma eligible_dom: "eligible r = dom (hash r)"
  by (auto simp: eligible_def is_eligible_def)

lemma became_eligible_run:
  "became_eligible t m cs r = Some (m', r') \<Longrightarrow> replacer_run cs r = Some r'"
  by (induction cs arbitrary: t m r) (auto simp: Option.bind_eq_Some_conv)

lemma instance_stamps:
  assumes run: "became_eligible 0 (\<lambda>f. 0) [CallUnpin 3, CallUnpin 5, CallPin 3, CallUnpin 3, CallUnpin 5] (new_LRUReplacer 2) = Some (m, r)"
  shows "m 3 = 3" "m 5 = 1"
proof -
  have "map_option (\<lambda>(m, r). (m 3, m 5)) (became_eligible 0 (\<lambda>f. 0) [CallUnpin 3, CallUnpin 5, CallPin 3, CallUnpin 3, CallUnpin 5] (new_LRUReplacer 2))
        = Some (3, 1)"
    by code_simp
  from this[unfolded run] show "m 3 = 3" "m 5 = 1" by simp_all
qed

lemma instance_eligible:
  assumes run: "became_eligible 0 (\<lambda>f. 0) [CallUnpin 3, CallUnpin 5, CallPin 3, CallUnpin 3, CallUnpin 5] (new_LRUReplacer 2) = Some (m, r)"
  shows "eligible r = {3, 5}"
proof -
  have "dom (hash r) = {3, 5}"
    using became_eligible_run[OF run] by (auto simp: replacer_defs Let_def split: if_splits)
  then show e: "eligible r = {3, 5}" by (simp add: eligible_dom)
qed


lemma oldest_of_two:
  assumes oldest: "eligible r \<noteq> {} \<longrightarrow>
              (\<exists>v r'. Victim r = Some (Some v, r') \<and> v \<in> eligible r \<and>
                 (\<forall>g \<in> eligible r. g \<noteq> v \<longrightarrow> m v < m g) \<and>
                 eligible r' = eligible r - {v})"
    and e: "eligible r = {3, 5}" and m: "m 3 = (3::nat)" "m 5 = 1"
  shows "\<exists>r'. Victim r = Some (Some 5, r') \<and> eligible r' = {3}"
proof -
  have "eligible r \<noteq> {}" using e by simp
  with oldest obtain v r' where
    v: "Victim r = Some (Some v, r')" "v \<in> eligible r"
      "\<forall>g \<in> eligible r. g \<noteq> v \<longrightarrow> m v < m g"
      "eligible r' = eligible r - {v}"
    by blast
  have "v = 3 \<or> v = 5" using v(2) e by simp
  moreover have "v \<noteq> 3"
  proof
    assume "v = 3"
    moreover have "5 \<in> eligible r" using e by simp
    ultimately have "m 3 < m 5" using v(3) by fastforce
    then show False using m by simp
  qed
  ultimately have "v = 5" by simp
  moreover have "{3, 5} - {5} = {3::int}" by auto
  ultimately show ?thesis using v(1,4) e by simp
qed

text \<open>
  An instance with capacity two: frame 3 is unpinned, then 5, then 3 is pinned and
  unpinned again, and 5 is unpinned once more. Frame 5 became eligible at call 1 and
  frame 3 at call 3; the victim is frame 5, and frame 3 stays. On a new replacer
  \<open>Victim\<close> returns false.
\<close>

theorem Victim_returns_oldest_witness:
  "(\<exists>m r r'. became_eligible 0 (\<lambda>f. 0) [CallUnpin 3, CallUnpin 5, CallPin 3, CallUnpin 3, CallUnpin 5]
            (new_LRUReplacer 2) = Some (m, r) \<and>
         eligible r = {3, 5} \<and> m 5 = 1 \<and> m 3 = 3 \<and>
         Victim r = Some (Some 5, r') \<and> eligible r' = {3}) \<and>
   Victim (new_LRUReplacer 2) = Some (None, new_LRUReplacer 2)"
proof -
  let ?cs = "[CallUnpin 3, CallUnpin 5, CallPin 3, CallUnpin 3, CallUnpin 5]"
  have cap: "(2 :: 64 word) \<noteq> 0" by simp
  note inst = Victim_returns_oldest[of "?cs" 2]
  from inst[THEN conjunct2, THEN conjunct1, rule_format, OF cap] obtain m r where
    run: "became_eligible 0 (\<lambda>f. 0) ?cs (new_LRUReplacer 2) = Some (m, r)"
    by (elim exE)
  note oldest = inst[THEN conjunct1, rule_format, OF run, THEN conjunct2]
  note m = instance_stamps[OF run] and e = instance_eligible[OF run]
  from oldest_of_two[OF oldest e m] obtain r' where
    1: "Victim r = Some (Some 5, r')" "eligible r' = {3}" by (elim exE conjE)
  have run0: "became_eligible 0 (\<lambda>f. 0) [] (new_LRUReplacer 2) = Some (\<lambda>f. 0, new_LRUReplacer 2)"
    by simp
  note none = Victim_returns_oldest[of "[]" 2, THEN conjunct1, rule_format, OF run0, THEN conjunct1]
  have "eligible (new_LRUReplacer 2) = {}"
    by (simp add: eligible_def is_eligible_def new_LRUReplacer_def)
  with none have 2: "Victim (new_LRUReplacer 2) = Some (None, new_LRUReplacer 2)" by (rule mp)
  show ?thesis
    apply (rule conjI)
     apply (rule exI[of _ m], rule exI[of _ r], rule exI[of _ r'])
     apply (intro conjI)
          apply (rule run)
         apply (rule e)
        apply (rule m(2))
       apply (rule m(1))
      apply (rule 1(1))
     apply (rule 1(2))
    apply (rule 2)
    done
qed

lemma eligible_keys: "lru_inv r kas \<Longrightarrow> eligible r = fst ` set kas"
  by (auto simp: eligible_def lru_inv_eligible)

text \<open>
  C6, amended. In every state a replacer reaches from its constructor by \<open>Unpin\<close>,
  \<open>Pin\<close> and \<open>Victim\<close> calls, \<open>Unpin f\<close> changes nothing when \<open>f\<close> is eligible. When
  \<open>f\<close> is not eligible and fewer than \<open>capacity\<close> frames are, it adds \<open>f\<close> and adds or
  removes no other frame. When \<open>f\<close> is not eligible and \<open>capacity\<close> frames already are
  (\<open>capacity\<close> at least one), it adds \<open>f\<close> and removes the frame \<open>Victim\<close> would
  return, the oldest one; no other frame is added or removed. In both cases a second
  \<open>Unpin f\<close> changes nothing.
\<close>

theorem Unpin_eligible_set:
  assumes run: "replacer_run cs (new_LRUReplacer cap) = Some r"
  shows "(is_eligible r f \<longrightarrow> Unpin f r = Some r) \<and>
         (\<not> is_eligible r f \<and> Size r \<noteq> capacity r \<longrightarrow>
            (\<exists>r'. Unpin f r = Some r' \<and> eligible r' = insert f (eligible r) \<and>
                  Unpin f r' = Some r')) \<and>
         (\<not> is_eligible r f \<and> Size r = capacity r \<and> capacity r \<noteq> 0 \<longrightarrow>
            (\<exists>v rv r'. Victim r = Some (Some v, rv) \<and> v \<in> eligible r \<and>
                  Unpin f r = Some r' \<and> eligible r' = insert f (eligible r - {v}) \<and>
                  Unpin f r' = Some r'))"
proof -
  obtain kas where inv: "lru_inv r kas"
    using replacer_run_inv[OF run new_LRUReplacer_inv] by blast
  have sz: "(Size r = capacity r) = (length kas = unat (capacity r))"
    using lru_inv_full[OF inv] by (simp add: Size_def)
  have len: "length kas \<le> unat (capacity r)" using lru_inv_size[OF inv] by simp
  have dk: "distinct (map fst kas)" using inv by (auto simp: lru_inv_def split: option.splits)
  have 1: "is_eligible r f \<longrightarrow> Unpin f r = Some r" by (simp add: Unpin_present)
  have 2: "\<exists>r'. Unpin f r = Some r' \<and> eligible r' = insert f (eligible r) \<and> Unpin f r' = Some r'"
    if absent: "\<not> is_eligible r f" and room: "Size r \<noteq> capacity r"
  proof -
    have "length kas < unat (capacity r)" using room sz len by simp
    from Unpin_room_inv[OF inv absent this] obtain r' where
      r': "Unpin f r = Some r'" "lru_inv r' ((f, next_addr r) # kas)" by blast
    have "is_eligible r' f" by (simp add: lru_inv_eligible[OF r'(2)])
    then show ?thesis using r'(1) eligible_keys[OF inv] eligible_keys[OF r'(2)]
      by (auto simp: Unpin_present)
  qed
  have 3: "\<exists>v rv r'. Victim r = Some (Some v, rv) \<and> v \<in> eligible r \<and>
                  Unpin f r = Some r' \<and> eligible r' = insert f (eligible r - {v}) \<and>
                  Unpin f r' = Some r'"
    if absent: "\<not> is_eligible r f" and full: "Size r = capacity r" and cap: "capacity r \<noteq> 0"
  proof -
    have l: "length kas = unat (capacity r)" using full sz by simp
    then have "kas \<noteq> []" using cap by (auto simp: unat_eq_0)
    then obtain kx k a where kas: "kas = kx @ [(k, a)]"
      by (cases kas rule: rev_cases) auto
    from Victim_inv[of r kx k a] inv obtain rv where rv: "Victim r = Some (Some k, rv)"
      by (auto simp: kas)
    from Unpin_full_inv[of r kx k a f] inv absent l obtain r' where
      r': "Unpin f r = Some r'" "lru_inv r' ((f, next_addr r) # kx)"
      by (auto simp: kas)
    have "is_eligible r' f" by (simp add: lru_inv_eligible[OF r'(2)])
    moreover have "k \<notin> fst ` set kx" using dk by (auto simp: kas)
    then have "eligible r' = insert f (eligible r - {k})"
      unfolding eligible_keys[OF inv] eligible_keys[OF r'(2)] by (auto simp: kas)
    moreover have "k \<in> eligible r" unfolding eligible_keys[OF inv] by (auto simp: kas)
    ultimately show ?thesis using rv r'(1) by (auto simp: Unpin_present)
  qed
  show ?thesis using 1 2 3 by blast
qed

text \<open>
  An instance with capacity three: frames 0 and 1 are eligible; \<open>Unpin 1\<close> is a no-op,
  \<open>Unpin 2\<close> adds frame 2, and with the replacer now full \<open>Unpin 3\<close> adds frame 3 and
  drops frame 0.
\<close>

theorem Unpin_eligible_set_witness:
  "\<exists>r r1 r2. replacer_run [CallUnpin 0, CallUnpin 1] (new_LRUReplacer 3) = Some r \<and>
      Unpin 1 r = Some r \<and>
      Unpin 2 r = Some r1 \<and> eligible r1 = insert 2 (eligible r) \<and>
      Unpin 3 r1 = Some r2 \<and> eligible r2 = insert 3 (eligible r1 - {0}) \<and>
      is_eligible r1 0 \<and> \<not> is_eligible r2 0"
proof -
  obtain r where r: "replacer_run [CallUnpin 0, CallUnpin 1] (new_LRUReplacer 3) = Some r"
    by (simp add: replacer_defs Let_def)
  from r have f: "is_eligible r 1" "\<not> is_eligible r 2" "Size r \<noteq> capacity r"
    by (auto simp: replacer_defs Let_def)
  from Unpin_eligible_set[OF r, of 1] f have a: "Unpin 1 r = Some r" by blast
  from Unpin_eligible_set[OF r, of 2] f obtain r1 where
    r1: "Unpin 2 r = Some r1" "eligible r1 = insert 2 (eligible r)" by blast
  have run1: "replacer_run [CallUnpin 0, CallUnpin 1, CallUnpin 2] (new_LRUReplacer 3) = Some r1"
    using r r1(1) by (auto simp: Option.bind_eq_Some_conv)
  from r r1(1) have g: "\<not> is_eligible r1 3" "Size r1 = capacity r1" "capacity r1 \<noteq> 0"
    "is_eligible r1 0" "map_option fst (Victim r1) = Some (Some 0)"
    by (auto simp: replacer_defs Let_def)
  from Unpin_eligible_set[OF run1, of 3] g obtain v rv r2 where
    r2: "Victim r1 = Some (Some v, rv)" "Unpin 3 r1 = Some r2"
      "eligible r2 = insert 3 (eligible r1 - {v})" by blast
  have v: "v = 0" using r2(1) g(5) by simp
  have "0 \<notin> eligible r2" unfolding r2(3) v by simp
  then have "\<not> is_eligible r2 0" by (simp add: eligible_def)
  then show ?thesis using r a r1 r2(2,3) g(4) unfolding v by blast
qed

text \<open>
  The claim as stated fails where the replacer is full: with capacity one and frame 0
  eligible, \<open>Unpin 1\<close> removes frame 0 from the eligible set.
\<close>

theorem Unpin_evicts_when_full_counterexample:
  "Option.bind (Unpin 0 (new_LRUReplacer 1))
     (\<lambda>r. Option.bind (Unpin 1 r)
        (\<lambda>r'. Some (is_eligible r 0, is_eligible r 1, is_eligible r' 0, is_eligible r' 1)))
   = Some (True, False, False, True)"
  by (simp add: replacer_defs Let_def)

section \<open>The pool's frame indices stay in range\<close>

lemma FlushPageImpl_absent: "page_table s pid = None \<Longrightarrow> FlushPageImpl pid s = Some (False, s)"
  by (simp add: FlushPageImpl_def)

lemma FlushPageImpl_resident:
  "page_table s pid = Some f \<Longrightarrow> frame_in_pool s f \<Longrightarrow>
   FlushPageImpl pid s =
     Some (True, s\<lparr>pages := (pages s)[nat f := (pages s ! nat f)\<lparr>is_dirty := False\<rparr>],
                    disk_manager := WritePage pid (data (pages s ! nat f)) (disk_manager s)\<rparr>)"
  by (simp add: FlushPageImpl_def page_at_def upd_page_def)

lemma frame_in_pool_nonempty: "frame_in_pool s f \<Longrightarrow> pages s \<noteq> []"
  by (auto simp: frame_in_pool_def)

lemma Unpin_pool:
  assumes inv: "lru_inv r kas" and cap: "capacity r \<noteq> 0"
  shows "\<exists>r' kas'. Unpin f r = Some r' \<and> lru_inv r' kas' \<and> capacity r' = capacity r \<and>
           is_eligible r' f \<and> fst ` set kas' \<subseteq> insert f (fst ` set kas)"
proof (cases "is_eligible r f")
  case True
  then show ?thesis using inv by (auto simp: Unpin_present)
next
  case False
  show ?thesis
  proof (cases "length kas < unat (capacity r)")
    case True
    from Unpin_room_inv[OF inv False True] obtain r' where
      r': "Unpin f r = Some r'" "lru_inv r' ((f, next_addr r) # kas)" "capacity r' = capacity r"
      by auto
    have "is_eligible r' f" by (simp add: lru_inv_eligible[OF r'(2)])
    then show ?thesis using r' by (intro exI[of _ r'] exI[of _ "(f, next_addr r) # kas"]) auto
  next
    case full: False
    then have len: "length kas = unat (capacity r)" using lru_inv_size[OF inv] by simp
    then have "kas \<noteq> []" using cap by (auto simp: unat_eq_0)
    then obtain kx k a where kas: "kas = kx @ [(k, a)]"
      by (cases kas rule: rev_cases) auto
    from Unpin_full_inv[of r kx k a f] inv False len obtain r' where
      r': "Unpin f r = Some r'" "lru_inv r' ((f, next_addr r) # kx)" "capacity r' = capacity r"
      by (auto simp: kas)
    have "is_eligible r' f" by (simp add: lru_inv_eligible[OF r'(2)])
    then show ?thesis using r' by (intro exI[of _ r'] exI[of _ "(f, next_addr r) # kx"]) (auto simp: kas)
  qed
qed

lemma UnpinPageImpl_absent: "page_table s pid = None \<Longrightarrow> UnpinPageImpl pid d s = Some (False, s)"
  by (simp add: UnpinPageImpl_def)

lemma UnpinPageImpl_zero:
  "page_table s pid = Some f \<Longrightarrow> frame_in_pool s f \<Longrightarrow> pin_count (pages s ! nat f) = 0 \<Longrightarrow>
   UnpinPageImpl pid d s = Some (False, s)"
  by (simp add: UnpinPageImpl_def page_at_def)

lemma UnpinPageImpl_effect:
  assumes inv: "pool_inv s kas" and res: "page_table s pid = Some f"
    and pin: "pin_count (pages s ! nat f) \<noteq> 0"
  shows "\<exists>s' kas'. UnpinPageImpl pid d s = Some (True, s') \<and> pool_inv s' kas' \<and>
           page_table s' = page_table s \<and> free_list s' = free_list s \<and>
           pages s' = (pages s)[nat f := (pages s ! nat f)
                         \<lparr>is_dirty := (is_dirty (pages s ! nat f) \<or> d),
                          pin_count := pin_count (pages s ! nat f) - 1\<rparr>] \<and>
           disk_manager s' =
             (if d then WritePage pid (data (pages s ! nat f)) (disk_manager s) else disk_manager s) \<and>
           (if pin_count (pages s ! nat f) = 1
            then Unpin f (replacer s) = Some (replacer s') \<and> is_eligible (replacer s') f
            else replacer s' = replacer s)"
proof -
  have fp: "frame_in_pool s f" using inv res by (auto simp: pool_inv_def)
  then have lt: "nat f < length (pages s)" by (simp add: frame_in_pool_def)
  have cap: "capacity (replacer s) \<noteq> 0" using inv frame_in_pool_nonempty[OF fp] by (auto simp: pool_inv_def)
  have linv: "lru_inv (replacer s) kas" using inv by (simp add: pool_inv_def)
  let ?p = "pages s ! nat f"
  let ?pages = "(pages s)[nat f := ?p\<lparr>is_dirty := (is_dirty ?p \<or> d), pin_count := pin_count ?p - 1\<rparr>]"
  let ?dm = "if d then WritePage pid (data ?p) (disk_manager s) else disk_manager s"
  let ?s1 = "s\<lparr>pages := ?pages, disk_manager := ?dm\<rparr>"
  show ?thesis
  proof (cases "pin_count ?p = 1")
    case True
    from Unpin_pool[OF linv cap, of f] obtain r' kas' where
      r': "Unpin f (replacer s) = Some r'" "lru_inv r' kas'" "capacity r' = capacity (replacer s)"
        "is_eligible r' f" "fst ` set kas' \<subseteq> insert f (fst ` set kas)" by blast
    have e: "UnpinPageImpl pid d s = Some (True, ?s1\<lparr>replacer := r'\<rparr>)"
      using res fp lt pin True r'(1)
      by (cases d) (simp_all add: UnpinPageImpl_def FlushPageImpl_resident page_at_def upd_page_def
          frame_in_pool_def)
    have "\<forall>p \<in> set kas'. frame_in_pool s (fst p)"
    proof
      fix p assume "p \<in> set kas'"
      then have "fst p \<in> insert f (fst ` set kas)" using r'(5) by auto
      then show "frame_in_pool s (fst p)" using fp inv by (auto simp: pool_inv_def)
    qed
    then have "pool_inv (?s1\<lparr>replacer := r'\<rparr>) kas'"
      using inv r'(2,3) cap by (simp add: pool_inv_def frame_in_pool_def)
    then show ?thesis using e r' True by (intro exI[of _ "?s1\<lparr>replacer := r'\<rparr>"] exI[of _ kas']) simp
  next
    case False
    have e: "UnpinPageImpl pid d s = Some (True, ?s1)"
      using res fp lt pin False
      by (cases d) (simp_all add: UnpinPageImpl_def FlushPageImpl_resident page_at_def upd_page_def
          frame_in_pool_def)
    have "pool_inv ?s1 kas"
      using inv by (auto simp: pool_inv_def frame_in_pool_def)
    then show ?thesis using e False by (intro exI[of _ ?s1] exI[of _ kas]) simp
  qed
qed

lemma pool_inv_frame: "pool_inv s kas \<Longrightarrow> page_table s pid = Some f \<Longrightarrow> frame_in_pool s f"
  by (auto simp: pool_inv_def)

lemma FlushPageImpl_frame:
  assumes "\<forall>pid f. page_table s pid = Some f \<longrightarrow> frame_in_pool s f"
  shows "\<exists>b s'. FlushPageImpl pid s = Some (b, s') \<and> page_table s' = page_table s \<and>
           free_list s' = free_list s \<and> replacer s' = replacer s \<and>
           length (pages s') = length (pages s)"
proof (cases "page_table s pid")
  case None
  then show ?thesis by (auto simp: FlushPageImpl_absent)
next
  case (Some f)
  then have "frame_in_pool s f" using assms by simp
  then show ?thesis using Some by (auto simp: FlushPageImpl_resident)
qed

lemma FlushPageImpl_inv:
  assumes "pool_inv s kas"
  shows "\<exists>b s'. FlushPageImpl pid s = Some (b, s') \<and> pool_inv s' kas"
proof -
  from FlushPageImpl_frame[of s pid] assms obtain b s' where
    "FlushPageImpl pid s = Some (b, s')" "page_table s' = page_table s"
    "free_list s' = free_list s" "replacer s' = replacer s" "length (pages s') = length (pages s)"
    by (auto simp: pool_inv_def)
  then show ?thesis using assms by (auto simp: pool_inv_def frame_in_pool_def)
qed

lemma flush_if_dirty:
  assumes "\<forall>pid f. page_table s pid = Some f \<longrightarrow> frame_in_pool s f"
  shows "\<exists>s'. (if b then map_option snd (FlushPageImpl pid s) else Some s) = Some s' \<and>
           page_table s' = page_table s \<and> free_list s' = free_list s \<and>
           replacer s' = replacer s \<and> length (pages s') = length (pages s)"
  using FlushPageImpl_frame[OF assms, of pid] by auto

lemma Victim_pool:
  assumes inv: "lru_inv r kas"
  shows "(kas = [] \<and> Victim r = Some (None, r)) \<or>
         (\<exists>kx v a r'. kas = kx @ [(v, a)] \<and> Victim r = Some (Some v, r') \<and> lru_inv r' kx \<and>
             capacity r' = capacity r)"
proof (cases kas rule: rev_cases)
  case Nil
  then show ?thesis using Victim_empty[of r] inv by simp
next
  case (snoc kx p)
  obtain v a where p: "p = (v, a)" by (cases p)
  from Victim_inv[of r kx v a] inv show ?thesis by (auto simp: snoc p)
qed

lemma FetchPageImpl_inv:
  assumes inv: "pool_inv s kas"
  shows "\<exists>res s' kas'. FetchPageImpl PS pid s = Some (res, s') \<and> pool_inv s' kas'"
proof (cases "page_table s pid")
  case (Some f)
  then have fp: "frame_in_pool s f" using inv by (rule pool_inv_frame[rotated])
  have "FetchPageImpl PS pid s =
          Some (Some f, upd_page f (\<lambda>p. p\<lparr>pin_count := pin_count p + 1\<rparr>) s)"
    using Some fp by (simp add: FetchPageImpl_def page_at_def)
  moreover have "pool_inv (upd_page f (\<lambda>p. p\<lparr>pin_count := pin_count p + 1\<rparr>) s) kas"
    using inv by (auto simp: pool_inv_def upd_page_def frame_in_pool_def)
  ultimately show ?thesis by blast
next
  case None
  show ?thesis
  proof (cases "free_list s")
    case (Cons f rest)
    then have fp: "frame_in_pool s f" using inv by (auto simp: pool_inv_def)
    have "\<exists>s'. FetchPageImpl PS pid s = Some (Some f, s') \<and> replacer s' = replacer s \<and>
            length (pages s') = length (pages s) \<and> free_list s' = rest \<and>
            page_table s' = (page_table s)(pid \<mapsto> f)"
      using None Cons fp
      by (simp add: FetchPageImpl_def page_at_def upd_page_def frame_in_pool_def ReadPage_def Let_def)
    then obtain s' where s': "FetchPageImpl PS pid s = Some (Some f, s')" "replacer s' = replacer s"
      "length (pages s') = length (pages s)" "free_list s' = rest"
      "page_table s' = (page_table s)(pid \<mapsto> f)" by blast
    have "pool_inv s' kas" using inv s'(2-5) fp Cons
      by (auto simp: pool_inv_def frame_in_pool_def)
    then show ?thesis using s'(1) by blast
  next
    case Nil
    have linv: "lru_inv (replacer s) kas" using inv by (simp add: pool_inv_def)
    from Victim_pool[OF linv] show ?thesis
    proof (elim disjE exE conjE)
      assume "kas = []" "Victim (replacer s) = Some (None, replacer s)"
      then have "FetchPageImpl PS pid s = Some (None, s)"
        using None Nil by (simp add: FetchPageImpl_def)
      then show ?thesis using inv by blast
    next
      fix kx v a r'
      assume kas: "kas = kx @ [(v, a)]" and vic: "Victim (replacer s) = Some (Some v, r')"
        and linv': "lru_inv r' kx" and cap: "capacity r' = capacity (replacer s)"
      have fp: "frame_in_pool s v" using inv by (auto simp: pool_inv_def kas)
      let ?s1 = "s\<lparr>replacer := r'\<rparr>"
      let ?vp = "page_id (pages s ! nat v)"
      have "\<forall>pid f. page_table ?s1 pid = Some f \<longrightarrow> frame_in_pool ?s1 f"
        using inv by (auto simp: pool_inv_def frame_in_pool_def)
      from flush_if_dirty[OF this, of "is_dirty (pages s ! nat v)" ?vp] obtain s2 where
        s2: "(if is_dirty (pages s ! nat v) then map_option snd (FlushPageImpl ?vp ?s1) else Some ?s1) = Some s2"
          "page_table s2 = page_table s" "free_list s2 = free_list s" "replacer s2 = r'"
          "length (pages s2) = length (pages s)" by auto
      have "\<exists>s'. FetchPageImpl PS pid s = Some (Some v, s') \<and> replacer s' = r' \<and>
              length (pages s') = length (pages s) \<and> free_list s' = [] \<and>
              page_table s' = ((page_table s)(?vp := None))(pid \<mapsto> v)"
        using None Nil vic fp s2
        by (simp add: FetchPageImpl_def page_at_def upd_page_def frame_in_pool_def ReadPage_def Let_def)
      then obtain s' where s': "FetchPageImpl PS pid s = Some (Some v, s')" "replacer s' = r'"
        "length (pages s') = length (pages s)" "free_list s' = []"
        "page_table s' = ((page_table s)(?vp := None))(pid \<mapsto> v)" by blast
      have "pool_inv s' kx" using inv s'(2-5) fp linv' cap
        by (auto simp: pool_inv_def frame_in_pool_def kas split: if_splits)
      then show ?thesis using s'(1) by blast
    qed
  qed
qed

lemma NewPageImpl_inv:
  assumes inv: "pool_inv s kas"
  shows "\<exists>res s' kas'. NewPageImpl PS s = Some (res, s') \<and> pool_inv s' kas'"
proof (cases "free_list s")
  case (Cons f rest)
  then have fp: "frame_in_pool s f" using inv by (auto simp: pool_inv_def)
  have "\<exists>s'. NewPageImpl PS s = Some (Some (next_page_id (disk_manager s), f), s') \<and>
          replacer s' = replacer s \<and> length (pages s') = length (pages s) \<and> free_list s' = rest \<and>
          page_table s' = (page_table s)(next_page_id (disk_manager s) \<mapsto> f)"
    using Cons fp
    by (simp add: NewPageImpl_def page_at_def upd_page_def frame_in_pool_def AllocatePage_def Let_def)
  then obtain s' where s': "NewPageImpl PS s = Some (Some (next_page_id (disk_manager s), f), s')"
    "replacer s' = replacer s" "length (pages s') = length (pages s)" "free_list s' = rest"
    "page_table s' = (page_table s)(next_page_id (disk_manager s) \<mapsto> f)" by blast
  have "pool_inv s' kas" using inv s'(2-5) fp Cons
    by (auto simp: pool_inv_def frame_in_pool_def)
  then show ?thesis using s'(1) by blast
next
  case Nil
  let ?s0 = "s\<lparr>disk_manager := disk_manager s
                \<lparr>next_page_id := next_page_id (disk_manager s) + 1,
                 trace := trace (disk_manager s) @ [Allocate (next_page_id (disk_manager s))]\<rparr>\<rparr>"
  have linv: "lru_inv (replacer s) kas" using inv by (simp add: pool_inv_def)
  from Victim_pool[OF linv] show ?thesis
  proof (elim disjE exE conjE)
    assume "kas = []" "Victim (replacer s) = Some (None, replacer s)"
    then have "NewPageImpl PS s = Some (None, ?s0)"
      using Nil by (simp add: NewPageImpl_def AllocatePage_def Let_def)
    moreover have "pool_inv ?s0 kas" using inv by (simp add: pool_inv_def frame_in_pool_def)
    ultimately show ?thesis by blast
  next
    fix kx v a r'
    assume kas: "kas = kx @ [(v, a)]" and vic: "Victim (replacer s) = Some (Some v, r')"
      and linv': "lru_inv r' kx" and cap: "capacity r' = capacity (replacer s)"
    have fp: "frame_in_pool s v" using inv by (auto simp: pool_inv_def kas)
    let ?s1 = "?s0\<lparr>replacer := r'\<rparr>"
    let ?vp = "page_id (pages s ! nat v)"
    let ?new = "next_page_id (disk_manager s)"
    have "\<forall>pid f. page_table ?s1 pid = Some f \<longrightarrow> frame_in_pool ?s1 f"
      using inv by (auto simp: pool_inv_def frame_in_pool_def)
    from flush_if_dirty[OF this, of "is_dirty (pages s ! nat v)" ?vp] obtain s2 where
      s2: "(if is_dirty (pages s ! nat v) then map_option snd (FlushPageImpl ?vp ?s1) else Some ?s1) = Some s2"
        "page_table s2 = page_table s" "free_list s2 = free_list s" "replacer s2 = r'"
        "length (pages s2) = length (pages s)" by auto
    have "\<exists>s'. NewPageImpl PS s = Some (Some (?new, v), s') \<and> replacer s' = r' \<and>
            length (pages s') = length (pages s) \<and> free_list s' = [] \<and>
            page_table s' = ((page_table s)(?vp := None))(?new \<mapsto> v)"
      using Nil vic fp s2
      by (simp add: NewPageImpl_def page_at_def upd_page_def frame_in_pool_def AllocatePage_def Let_def)
    then obtain s' where s': "NewPageImpl PS s = Some (Some (?new, v), s')" "replacer s' = r'"
      "length (pages s') = length (pages s)" "free_list s' = []"
      "page_table s' = ((page_table s)(?vp := None))(?new \<mapsto> v)" by blast
    have "pool_inv s' kx" using inv s'(2-5) fp linv' cap
      by (auto simp: pool_inv_def frame_in_pool_def kas split: if_splits)
    then show ?thesis using s'(1) by blast
  qed
qed

lemma UnpinPageImpl_inv:
  assumes inv: "pool_inv s kas"
  shows "\<exists>b s' kas'. UnpinPageImpl pid d s = Some (b, s') \<and> pool_inv s' kas'"
proof (cases "page_table s pid")
  case None
  then show ?thesis using inv UnpinPageImpl_absent by blast
next
  case (Some f)
  show ?thesis
  proof (cases "pin_count (pages s ! nat f) = 0")
    case True
    then show ?thesis using inv UnpinPageImpl_zero[OF Some pool_inv_frame[OF inv Some]] by blast
  next
    case False
    from UnpinPageImpl_effect[OF inv Some False, of d] show ?thesis by blast
  qed
qed

lemma sint_small: "i < 2 ^ 31 \<Longrightarrow> sint (word_of_nat i :: 32 word) = int i"
  by (simp add: signed_of_nat signed_take_bit_int_eq_self)

lemma new_BufferPoolManager_inv:
  assumes "unat n \<le> 2 ^ 31"
  shows "pool_inv (new_BufferPoolManager PS n dm) []"
proof -
  have "frame_in_pool (new_BufferPoolManager PS n dm) (sint (word_of_nat i :: 32 word))"
    if "i < unat n" for i
  proof -
    have "i < 2 ^ 31" using that assms by simp
    then show ?thesis using that
      by (simp add: sint_small frame_in_pool_def new_BufferPoolManager_def)
  qed
  then have "\<forall>f \<in> set (free_list (new_BufferPoolManager PS n dm)).
          frame_in_pool (new_BufferPoolManager PS n dm) f"
    by (auto simp: new_BufferPoolManager_def)
  moreover have "replacer (new_BufferPoolManager PS n dm) = new_LRUReplacer n"
    "page_table (new_BufferPoolManager PS n dm) = (\<lambda>p. None)"
    "pages (new_BufferPoolManager PS n dm) = replicate (unat n) (new_Page PS)"
    by (simp_all add: new_BufferPoolManager_def)
  moreover have "capacity (new_LRUReplacer n) = n" by (simp add: new_LRUReplacer_def)
  ultimately show ?thesis
    by (auto simp: pool_inv_def new_LRUReplacer_inv)
qed

lemma pool_step_inv:
  assumes inv: "pool_inv s kas"
  shows "\<exists>s' kas'. pool_step PS c s = Some s' \<and> pool_inv s' kas'"
proof (cases c)
  case (CallFetch pid)
  then show ?thesis using FetchPageImpl_inv[OF inv, of PS pid] by auto
next
  case CallNew
  then show ?thesis using NewPageImpl_inv[OF inv, of PS] by auto
next
  case (CallUnpinPage pid d)
  then show ?thesis using UnpinPageImpl_inv[OF inv, of pid d] by auto
next
  case (CallFlush pid)
  then show ?thesis using FlushPageImpl_inv[OF inv, of pid] by auto
next
  case (CallDelete pid)
  then show ?thesis using inv by (auto simp: DeletePageImpl_def)
next
  case CallFlushAll
  then show ?thesis using inv by (auto simp: FlushAllPagesImpl_def)
qed

lemma pool_run_inv:
  "pool_inv s kas \<Longrightarrow> \<exists>s' kas'. pool_run PS cs s = Some s' \<and> pool_inv s' kas'"
proof (induction cs arbitrary: s kas)
  case Nil
  then show ?case by auto
next
  case (Cons c cs)
  from pool_step_inv[OF Cons.prems, of PS c] obtain s1 k1 where
    "pool_step PS c s = Some s1" "pool_inv s1 k1" by blast
  then show ?case using Cons.IH[of s1 k1] by auto
qed

lemma reachable_inv:
  assumes "unat n \<le> 2 ^ 31" "pool_run PS cs (new_BufferPoolManager PS n dm) = Some s"
  shows "\<exists>kas. pool_inv s kas"
  using pool_run_inv[OF new_BufferPoolManager_inv[OF assms(1), of PS dm], of PS cs] assms(2) by auto

section \<open>Flush\<close>

text \<open>
  C8. In every state a pool of at most \<open>2^31\<close> frames reaches from its constructor,
  \<open>FlushPageImpl\<close> returns false, changing nothing, when the identity is not resident.
  When it is resident in frame \<open>f\<close>, the call returns true, whatever the dirty flag
  is: it appends one write of the frame's content to the trace of disk calls, stores that
  content on the disk, clears the dirty flag and changes nothing else. A second flush
  returns true again and leaves the pages, the page table, the free list, the replacer
  and the disk contents as the first one left them; only the trace records the repeated
  write.
\<close>

theorem FlushPageImpl_contract:
  assumes reach: "pool_run PS cs (new_BufferPoolManager PS n dm) = Some s"
    and n: "unat n \<le> 2 ^ 31"
  shows "((\<exists>s'. FlushPageImpl pid s = Some (False, s')) = (page_table s pid = None)) \<and>
         (page_table s pid = None \<longrightarrow> FlushPageImpl pid s = Some (False, s)) \<and>
         (\<forall>f. page_table s pid = Some f \<longrightarrow>
            (\<exists>s' s''. FlushPageImpl pid s = Some (True, s') \<and>
               trace (disk_manager s') =
                 trace (disk_manager s) @ [Write pid (data (pages s ! nat f))] \<and>
               contents (disk_manager s') =
                 (contents (disk_manager s))(pid := data (pages s ! nat f)) \<and>
               pages s' = (pages s)[nat f := (pages s ! nat f)\<lparr>is_dirty := False\<rparr>] \<and>
               \<not> is_dirty (pages s' ! nat f) \<and>
               page_table s' = page_table s \<and> free_list s' = free_list s \<and>
               replacer s' = replacer s \<and>
               FlushPageImpl pid s' = Some (True, s'') \<and>
               pool_size s'' = pool_size s' \<and> pages s'' = pages s' \<and>
               page_table s'' = page_table s' \<and> free_list s'' = free_list s' \<and>
               replacer s'' = replacer s' \<and>
               contents (disk_manager s'') = contents (disk_manager s') \<and>
               next_page_id (disk_manager s'') = next_page_id (disk_manager s') \<and>
               trace (disk_manager s'') =
                 trace (disk_manager s') @ [Write pid (data (pages s ! nat f))]))"
proof -
  obtain kas where inv: "pool_inv s kas" using reachable_inv[OF n reach] by blast
  have "\<exists>s' s''. FlushPageImpl pid s = Some (True, s') \<and>
               trace (disk_manager s') =
                 trace (disk_manager s) @ [Write pid (data (pages s ! nat f))] \<and>
               contents (disk_manager s') =
                 (contents (disk_manager s))(pid := data (pages s ! nat f)) \<and>
               pages s' = (pages s)[nat f := (pages s ! nat f)\<lparr>is_dirty := False\<rparr>] \<and>
               \<not> is_dirty (pages s' ! nat f) \<and>
               page_table s' = page_table s \<and> free_list s' = free_list s \<and>
               replacer s' = replacer s \<and>
               FlushPageImpl pid s' = Some (True, s'') \<and>
               pool_size s'' = pool_size s' \<and> pages s'' = pages s' \<and>
               page_table s'' = page_table s' \<and> free_list s'' = free_list s' \<and>
               replacer s'' = replacer s' \<and>
               contents (disk_manager s'') = contents (disk_manager s') \<and>
               next_page_id (disk_manager s'') = next_page_id (disk_manager s') \<and>
               trace (disk_manager s'') =
                 trace (disk_manager s') @ [Write pid (data (pages s ! nat f))]"
    if res: "page_table s pid = Some f" for f
  proof -
    have fp: "frame_in_pool s f" using pool_inv_frame[OF inv res] .
    then have lt: "nat f < length (pages s)" by (simp add: frame_in_pool_def)
    let ?s' = "s\<lparr>pages := (pages s)[nat f := (pages s ! nat f)\<lparr>is_dirty := False\<rparr>],
                  disk_manager := WritePage pid (data (pages s ! nat f)) (disk_manager s)\<rparr>"
    have 1: "FlushPageImpl pid s = Some (True, ?s')" using res fp by (rule FlushPageImpl_resident)
    have res': "page_table ?s' pid = Some f" using res by simp
    have fp': "frame_in_pool ?s' f" using fp by (simp add: frame_in_pool_def)
    let ?s'' = "?s'\<lparr>pages := (pages ?s')[nat f := (pages ?s' ! nat f)\<lparr>is_dirty := False\<rparr>],
                  disk_manager := WritePage pid (data (pages ?s' ! nat f)) (disk_manager ?s')\<rparr>"
    have 2: "FlushPageImpl pid ?s' = Some (True, ?s'')"
      using res' fp' by (rule FlushPageImpl_resident)
    show ?thesis
      using lt 1 2
      by (intro exI[of _ ?s'] exI[of _ ?s''] conjI) (simp_all add: WritePage_def)
  qed
  note resident = this
  have absent: "page_table s pid = None \<longrightarrow> FlushPageImpl pid s = Some (False, s)"
    by (simp add: FlushPageImpl_absent)
  have "(\<exists>s'. FlushPageImpl pid s = Some (False, s')) = (page_table s pid = None)"
  proof (cases "page_table s pid")
    case None
    then show ?thesis using absent by simp
  next
    case (Some f)
    then show ?thesis using resident[OF Some] by auto
  qed
  then show ?thesis using absent resident by blast
qed

text \<open>Reading off a reached state what an evaluation of the call sequence gives.\<close>

lemma run_eval:
  "map_option f (pool_run PS cs s0) = Some c \<Longrightarrow> \<exists>s. pool_run PS cs s0 = Some s \<and> f s = c"
  by auto

text \<open>
  Scenario E on a pool of one frame: page 0 is created and flushed, so it is resident
  and clean; flushing it again writes it again and leaves it clean. Page 1 is not
  resident and its flush fails.
\<close>

theorem FlushPageImpl_contract_witness:
  "\<exists>s s'. pool_run 2 [CallNew, CallFlush 0] (new_BufferPoolManager 2 1 (blank_disk 2)) = Some s \<and>
     page_table s 0 = Some 0 \<and> \<not> is_dirty (pages s ! 0) \<and>
     FlushPageImpl 0 s = Some (True, s') \<and>
     trace (disk_manager s') = [Allocate 0, Write 0 [0, 0], Write 0 [0, 0]] \<and>
     \<not> is_dirty (pages s' ! 0) \<and>
     FlushPageImpl 1 s = Some (False, s)"
proof -
  have "map_option (\<lambda>s. (page_table s 0, page_table s 1, is_dirty (pages s ! 0),
            data (pages s ! 0), trace (disk_manager s)))
          (pool_run 2 [CallNew, CallFlush 0] (new_BufferPoolManager 2 1 (blank_disk 2)))
        = Some (Some 0, None, False, [0, 0], [Allocate 0, Write 0 [0, 0]])"
    by code_simp
  from run_eval[OF this] obtain s where
    run: "pool_run 2 [CallNew, CallFlush 0] (new_BufferPoolManager 2 1 (blank_disk 2)) = Some s"
    and f: "page_table s 0 = Some 0" "page_table s 1 = None" "\<not> is_dirty (pages s ! 0)"
      "data (pages s ! 0) = [0, 0]" "trace (disk_manager s) = [Allocate 0, Write 0 [0, 0]]"
    by auto
  have n: "unat (1 :: 64 word) \<le> 2 ^ 31" by simp
  from FlushPageImpl_contract[OF run n, of 0] f obtain s' where
    "FlushPageImpl 0 s = Some (True, s')"
    "trace (disk_manager s') = trace (disk_manager s) @ [Write 0 (data (pages s ! nat 0))]"
    "\<not> is_dirty (pages s' ! nat 0)"
    by blast
  moreover have "FlushPageImpl 1 s = Some (False, s)"
    using FlushPageImpl_contract[OF run n, of 1] f by blast
  ultimately show ?thesis using run f by auto
qed

section \<open>Unpin\<close>

text \<open>
  C10. In every reachable state, for a resident page with a positive pin count,
  \<open>UnpinPageImpl pid True\<close> returns true and leaves the disk manager as
  \<open>FlushPageImpl pid\<close> leaves it: one write of the page's content is appended to the
  trace and the content is on the disk. The flush clears the dirty flag and the unpin
  sets it afterwards, so the page ends dirty. With \<open>is_dirty = False\<close> the disk
  manager is untouched.
\<close>

theorem UnpinPageImpl_dirty_writes:
  assumes reach: "pool_run PS cs (new_BufferPoolManager PS n dm) = Some s"
    and n: "unat n \<le> 2 ^ 31"
    and res: "page_table s pid = Some f"
    and pin: "0 < pin_count (pages s ! nat f)"
  shows "\<exists>s1 s' s0. FlushPageImpl pid s = Some (True, s1) \<and>
           UnpinPageImpl pid True s = Some (True, s') \<and>
           disk_manager s' = disk_manager s1 \<and>
           trace (disk_manager s') =
             trace (disk_manager s) @ [Write pid (data (pages s ! nat f))] \<and>
           contents (disk_manager s') =
             (contents (disk_manager s))(pid := data (pages s ! nat f)) \<and>
           \<not> is_dirty (pages s1 ! nat f) \<and> is_dirty (pages s' ! nat f) \<and>
           UnpinPageImpl pid False s = Some (True, s0) \<and>
           disk_manager s0 = disk_manager s"
proof -
  obtain kas where inv: "pool_inv s kas" using reachable_inv[OF n reach] by blast
  have fp: "frame_in_pool s f" using pool_inv_frame[OF inv res] .
  then have lt: "nat f < length (pages s)" by (simp add: frame_in_pool_def)
  have nz: "pin_count (pages s ! nat f) \<noteq> 0" using pin by simp
  note fl = FlushPageImpl_resident[OF res fp]
  from UnpinPageImpl_effect[OF inv res nz, of True] obtain s' where
    s': "UnpinPageImpl pid True s = Some (True, s')"
      "pages s' = (pages s)[nat f := (pages s ! nat f)
                         \<lparr>is_dirty := (is_dirty (pages s ! nat f) \<or> True),
                          pin_count := pin_count (pages s ! nat f) - 1\<rparr>]"
      "disk_manager s' = WritePage pid (data (pages s ! nat f)) (disk_manager s)"
    by auto
  from UnpinPageImpl_effect[OF inv res nz, of False] obtain s0 where
    s0: "UnpinPageImpl pid False s = Some (True, s0)" "disk_manager s0 = disk_manager s"
    by auto
  show ?thesis
    using lt fl s' s0
    by (intro exI[of _ "s\<lparr>pages := (pages s)[nat f := (pages s ! nat f)\<lparr>is_dirty := False\<rparr>],
                    disk_manager := WritePage pid (data (pages s ! nat f)) (disk_manager s)\<rparr>"]
          exI[of _ s'] exI[of _ s0] conjI) (simp_all add: WritePage_def)
qed

text \<open>
  An instance: page 7 is fetched into a pool of one frame and flushed; it is clean with
  pin count 1. Unpinning it with \<open>is_dirty = True\<close> writes it once more.
\<close>

theorem UnpinPageImpl_dirty_writes_witness:
  "\<exists>s s'. pool_run 2 [CallFetch 7, CallFlush 7] (new_BufferPoolManager 2 1 (blank_disk 2)) = Some s \<and>
     page_table s 7 = Some 0 \<and> pin_count (pages s ! 0) = 1 \<and> \<not> is_dirty (pages s ! 0) \<and>
     trace (disk_manager s) = [Read 7, Write 7 [0, 0]] \<and>
     UnpinPageImpl 7 True s = Some (True, s') \<and>
     trace (disk_manager s') = [Read 7, Write 7 [0, 0], Write 7 [0, 0]] \<and>
     is_dirty (pages s' ! 0)"
proof -
  have "map_option (\<lambda>s. (page_table s 7, pin_count (pages s ! 0), is_dirty (pages s ! 0),
            data (pages s ! 0), trace (disk_manager s)))
          (pool_run 2 [CallFetch 7, CallFlush 7] (new_BufferPoolManager 2 1 (blank_disk 2)))
        = Some (Some 0, 1, False, [0, 0], [Read 7, Write 7 [0, 0]])"
    by code_simp
  from run_eval[OF this] obtain s where
    run: "pool_run 2 [CallFetch 7, CallFlush 7] (new_BufferPoolManager 2 1 (blank_disk 2)) = Some s"
    and f: "page_table s 7 = Some 0" "pin_count (pages s ! 0) = 1" "\<not> is_dirty (pages s ! 0)"
      "data (pages s ! 0) = [0, 0]" "trace (disk_manager s) = [Read 7, Write 7 [0, 0]]"
    by auto
  have n: "unat (1 :: 64 word) \<le> 2 ^ 31" by simp
  have pin: "0 < pin_count (pages s ! nat 0)" using f by simp
  from UnpinPageImpl_dirty_writes[OF run n f(1) pin] obtain s' where
    "UnpinPageImpl 7 True s = Some (True, s')"
    "trace (disk_manager s') = trace (disk_manager s) @ [Write 7 (data (pages s ! nat 0))]"
    "is_dirty (pages s' ! nat 0)"
    by blast
  then show ?thesis using run f by auto
qed

text \<open>The effect of a successful unpin on the fields of the page.\<close>

lemma UnpinPageImpl_fields:
  assumes inv: "pool_inv s kas" and res: "page_table s pid = Some f"
    and pin: "pin_count (pages s ! nat f) \<noteq> 0"
  shows "\<exists>s' kas'. UnpinPageImpl pid d s = Some (True, s') \<and> pool_inv s' kas' \<and>
           is_dirty (pages s' ! nat f) = (is_dirty (pages s ! nat f) \<or> d) \<and>
           pin_count (pages s' ! nat f) = pin_count (pages s ! nat f) - 1 \<and>
           (if pin_count (pages s' ! nat f) = 0
            then Unpin f (replacer s) = Some (replacer s') \<and> is_eligible (replacer s') f
            else replacer s' = replacer s) \<and>
           page_table s' = page_table s \<and> free_list s' = free_list s"
proof -
  have fp: "frame_in_pool s f" using pool_inv_frame[OF inv res] .
  then have lt: "nat f < length (pages s)" by (simp add: frame_in_pool_def)
  from UnpinPageImpl_effect[OF inv res pin, of d] obtain s' kas' where
    s': "UnpinPageImpl pid d s = Some (True, s')" "pool_inv s' kas'"
      "page_table s' = page_table s" "free_list s' = free_list s"
      "pages s' = (pages s)[nat f := (pages s ! nat f)
                         \<lparr>is_dirty := (is_dirty (pages s ! nat f) \<or> d),
                          pin_count := pin_count (pages s ! nat f) - 1\<rparr>]"
      "if pin_count (pages s ! nat f) = 1
       then Unpin f (replacer s) = Some (replacer s') \<and> is_eligible (replacer s') f
       else replacer s' = replacer s"
    by blast
  have "pin_count (pages s' ! nat f) = pin_count (pages s ! nat f) - 1"
    "is_dirty (pages s' ! nat f) = (is_dirty (pages s ! nat f) \<or> d)"
    using lt by (simp_all add: s'(5))
  moreover have "(pin_count (pages s' ! nat f) = 0) = (pin_count (pages s ! nat f) = 1)"
    using calculation(1) by auto
  ultimately show ?thesis using s'(1-4,6) by (intro exI[of _ s'] exI[of _ kas']) simp
qed

text \<open>
  C3. In every reachable state \<open>UnpinPageImpl pid d\<close> returns. It returns false with the
  state unchanged when the identity is not resident, and when it is resident with pin
  count zero. In the remaining case, resident with a pin count other than zero, it
  returns true, the dirty flag becomes \<open>dirty \<or> d\<close>, the pin count drops by one, the
  page table and the free list are unchanged, and the replacer's \<open>Unpin\<close> is called on
  the frame, which is then eligible, exactly when the count has reached zero; otherwise
  the replacer is unchanged. Scenario C: from pin count 2, unpinning with \<open>True\<close> and
  then with \<open>False\<close> leaves the page dirty, with pin count 0 and its frame eligible,
  and a third unpin returns false.
\<close>

theorem UnpinPageImpl_contract:
  assumes reach: "pool_run PS cs (new_BufferPoolManager PS n dm) = Some s"
    and n: "unat n \<le> 2 ^ 31"
  shows "((\<exists>s'. UnpinPageImpl pid d s = Some (False, s')) =
            (page_table s pid = None \<or>
             (\<exists>f. page_table s pid = Some f \<and> pin_count (pages s ! nat f) = 0))) \<and>
         (page_table s pid = None \<longrightarrow> UnpinPageImpl pid d s = Some (False, s)) \<and>
         (\<forall>f. page_table s pid = Some f \<and> pin_count (pages s ! nat f) = 0 \<longrightarrow>
            UnpinPageImpl pid d s = Some (False, s)) \<and>
         (\<forall>f. page_table s pid = Some f \<and> pin_count (pages s ! nat f) \<noteq> 0 \<longrightarrow>
            (\<exists>s'. UnpinPageImpl pid d s = Some (True, s') \<and>
               is_dirty (pages s' ! nat f) = (is_dirty (pages s ! nat f) \<or> d) \<and>
               pin_count (pages s' ! nat f) = pin_count (pages s ! nat f) - 1 \<and>
               (if pin_count (pages s' ! nat f) = 0
                then Unpin f (replacer s) = Some (replacer s') \<and> is_eligible (replacer s') f
                else replacer s' = replacer s) \<and>
               page_table s' = page_table s \<and> free_list s' = free_list s)) \<and>
         (\<forall>f. page_table s pid = Some f \<and> pin_count (pages s ! nat f) = 2 \<longrightarrow>
            (\<exists>s1 s2. UnpinPageImpl pid True s = Some (True, s1) \<and>
               UnpinPageImpl pid False s1 = Some (True, s2) \<and>
               is_dirty (pages s2 ! nat f) \<and> pin_count (pages s2 ! nat f) = 0 \<and>
               is_eligible (replacer s2) f \<and>
               UnpinPageImpl pid True s2 = Some (False, s2) \<and>
               UnpinPageImpl pid False s2 = Some (False, s2)))"
proof -
  obtain kas where inv: "pool_inv s kas" using reachable_inv[OF n reach] by blast
  have 1: "page_table s pid = None \<longrightarrow> UnpinPageImpl pid d s = Some (False, s)"
    by (simp add: UnpinPageImpl_absent)
  have 2: "UnpinPageImpl pid d s = Some (False, s)"
    if "page_table s pid = Some f" "pin_count (pages s ! nat f) = 0" for f
    using UnpinPageImpl_zero[OF that(1) pool_inv_frame[OF inv that(1)] that(2)] .
  have 3: "\<exists>s'. UnpinPageImpl pid d s = Some (True, s') \<and>
               is_dirty (pages s' ! nat f) = (is_dirty (pages s ! nat f) \<or> d) \<and>
               pin_count (pages s' ! nat f) = pin_count (pages s ! nat f) - 1 \<and>
               (if pin_count (pages s' ! nat f) = 0
                then Unpin f (replacer s) = Some (replacer s') \<and> is_eligible (replacer s') f
                else replacer s' = replacer s) \<and>
               page_table s' = page_table s \<and> free_list s' = free_list s"
    if "page_table s pid = Some f" "pin_count (pages s ! nat f) \<noteq> 0" for f
    using UnpinPageImpl_fields[OF inv that, of d] by blast
  have 4: "\<exists>s1 s2. UnpinPageImpl pid True s = Some (True, s1) \<and>
               UnpinPageImpl pid False s1 = Some (True, s2) \<and>
               is_dirty (pages s2 ! nat f) \<and> pin_count (pages s2 ! nat f) = 0 \<and>
               is_eligible (replacer s2) f \<and>
               UnpinPageImpl pid True s2 = Some (False, s2) \<and>
               UnpinPageImpl pid False s2 = Some (False, s2)"
    if res: "page_table s pid = Some f" and two: "pin_count (pages s ! nat f) = 2" for f
  proof -
    have "pin_count (pages s ! nat f) \<noteq> 0" using two by simp
    from UnpinPageImpl_fields[OF inv res this, of True] obtain s1 k1 where
      s1: "UnpinPageImpl pid True s = Some (True, s1)" "pool_inv s1 k1"
        "is_dirty (pages s1 ! nat f)" "pin_count (pages s1 ! nat f) = 1"
        "page_table s1 pid = Some f"
      using res two by auto
    have "pin_count (pages s1 ! nat f) \<noteq> 0" using s1(4) by simp
    from UnpinPageImpl_fields[OF s1(2) s1(5) this, of False] obtain s2 k2 where
      s2: "UnpinPageImpl pid False s1 = Some (True, s2)" "pool_inv s2 k2"
        "is_dirty (pages s2 ! nat f)" "pin_count (pages s2 ! nat f) = 0"
        "is_eligible (replacer s2) f" "page_table s2 pid = Some f"
      using s1(3,4,5) by auto
    have "UnpinPageImpl pid b s2 = Some (False, s2)" for b
      using UnpinPageImpl_zero[OF s2(6) pool_inv_frame[OF s2(2) s2(6)] s2(4)] .
    then show ?thesis using s1(1) s2(1,3,4,5) by blast
  qed
  have 0: "(\<exists>s'. UnpinPageImpl pid d s = Some (False, s')) =
            (page_table s pid = None \<or>
             (\<exists>f. page_table s pid = Some f \<and> pin_count (pages s ! nat f) = 0))"
  proof (cases "page_table s pid")
    case None
    then show ?thesis using 1 by simp
  next
    case (Some f)
    show ?thesis
    proof (cases "pin_count (pages s ! nat f) = 0")
      case True
      then show ?thesis using 2[OF Some] Some by auto
    next
      case False
      then show ?thesis using 3[OF Some] Some by auto
    qed
  qed
  show ?thesis using 0 1 2 3 4 by blast
qed

text \<open>
  Scenario C on a pool of two frames: page 5 is fetched twice, so it is clean with pin
  count 2. Page 6 is not resident and its unpin fails.
\<close>

theorem UnpinPageImpl_contract_witness:
  "\<exists>s s1 s2. pool_run 2 [CallFetch 5, CallFetch 5] (new_BufferPoolManager 2 2 (blank_disk 2)) = Some s \<and>
     page_table s 5 = Some 0 \<and> pin_count (pages s ! 0) = 2 \<and> \<not> is_dirty (pages s ! 0) \<and>
     UnpinPageImpl 6 True s = Some (False, s) \<and>
     UnpinPageImpl 5 True s = Some (True, s1) \<and>
     UnpinPageImpl 5 False s1 = Some (True, s2) \<and>
     is_dirty (pages s2 ! 0) \<and> pin_count (pages s2 ! 0) = 0 \<and> is_eligible (replacer s2) 0 \<and>
     UnpinPageImpl 5 True s2 = Some (False, s2)"
proof -
  have "map_option (\<lambda>s. (page_table s 5, page_table s 6, pin_count (pages s ! 0),
            is_dirty (pages s ! 0)))
          (pool_run 2 [CallFetch 5, CallFetch 5] (new_BufferPoolManager 2 2 (blank_disk 2)))
        = Some (Some 0, None, 2, False)"
    by code_simp
  from run_eval[OF this] obtain s where
    run: "pool_run 2 [CallFetch 5, CallFetch 5] (new_BufferPoolManager 2 2 (blank_disk 2)) = Some s"
    and f: "page_table s 5 = Some 0" "page_table s 6 = None" "pin_count (pages s ! 0) = 2"
      "\<not> is_dirty (pages s ! 0)"
    by auto
  have n: "unat (2 :: 64 word) \<le> 2 ^ 31" by simp
  have "UnpinPageImpl 6 True s = Some (False, s)"
    using UnpinPageImpl_contract[OF run n, of 6 True] f by blast
  moreover have "page_table s 5 = Some 0 \<and> pin_count (pages s ! nat 0) = 2" using f by simp
  with UnpinPageImpl_contract[OF run n, of 5 True] obtain s1 s2 where
    "UnpinPageImpl 5 True s = Some (True, s1)" "UnpinPageImpl 5 False s1 = Some (True, s2)"
    "is_dirty (pages s2 ! nat 0)" "pin_count (pages s2 ! nat 0) = 0"
    "is_eligible (replacer s2) 0" "UnpinPageImpl 5 True s2 = Some (False, s2)"
    by blast
  ultimately show ?thesis using run f by auto
qed

section \<open>Eviction of a dirty page\<close>

text \<open>
  C9. Take a reachable state with an empty free list in which the replacer's
  \<open>Victim\<close> yields frame \<open>v\<close>, the page of that frame is resident there (the page table
  maps its identity to \<open>v\<close>) and is dirty. Then \<open>FetchPageImpl\<close> of a non-resident
  identity writes the old content of the frame to the disk under the old identity and
  only then reads the new page into the frame: the trace grows by that write followed by
  the read. The old page-table entry is gone and the new identity maps to \<open>v\<close>.
  \<open>NewPageImpl\<close> likewise writes the old content (not the zeroed buffer) right after
  allocating the new identity, removes the old entry and installs the new one.
\<close>

theorem dirty_victim_written_before_reuse:
  assumes reach: "pool_run PS cs (new_BufferPoolManager PS n dm) = Some s"
    and n: "unat n \<le> 2 ^ 31"
    and fl: "free_list s = []"
    and vic: "Victim (replacer s) = Some (Some v, rep)"
    and res: "page_table s (page_id (pages s ! nat v)) = Some v"
    and dirty: "is_dirty (pages s ! nat v)"
  shows "(page_table s pid = None \<longrightarrow>
            (\<exists>s'. FetchPageImpl PS pid s = Some (Some v, s') \<and>
               trace (disk_manager s') =
                 trace (disk_manager s) @
                   [Write (page_id (pages s ! nat v)) (data (pages s ! nat v)), Read pid] \<and>
               contents (disk_manager s') =
                 (contents (disk_manager s))(page_id (pages s ! nat v) := data (pages s ! nat v)) \<and>
               page_table s' = ((page_table s)(page_id (pages s ! nat v) := None))(pid \<mapsto> v) \<and>
               page_table s' (page_id (pages s ! nat v)) = None \<and>
               pages s' ! nat v =
                 \<lparr>data = contents (disk_manager s) pid, page_id = pid, pin_count = 1,
                  is_dirty = False\<rparr>)) \<and>
         (\<exists>s'. NewPageImpl PS s = Some (Some (next_page_id (disk_manager s), v), s') \<and>
               trace (disk_manager s') =
                 trace (disk_manager s) @
                   [Allocate (next_page_id (disk_manager s)),
                    Write (page_id (pages s ! nat v)) (data (pages s ! nat v))] \<and>
               contents (disk_manager s') =
                 (contents (disk_manager s))(page_id (pages s ! nat v) := data (pages s ! nat v)) \<and>
               page_table s' =
                 ((page_table s)(page_id (pages s ! nat v) := None))
                   (next_page_id (disk_manager s) \<mapsto> v) \<and>
               (next_page_id (disk_manager s) \<noteq> page_id (pages s ! nat v) \<longrightarrow>
                  page_table s' (page_id (pages s ! nat v)) = None) \<and>
               pages s' ! nat v =
                 \<lparr>data = replicate PS 0, page_id = next_page_id (disk_manager s), pin_count = 1,
                  is_dirty = True\<rparr>)"
proof -
  obtain kas where inv: "pool_inv s kas" using reachable_inv[OF n reach] by blast
  have fp: "frame_in_pool s v" using pool_inv_frame[OF inv res] .
  then have lt: "nat v < length (pages s)" by (simp add: frame_in_pool_def)
  let ?vp = "page_id (pages s ! nat v)"
  let ?vd = "data (pages s ! nat v)"
  have fetch: "\<exists>s'. FetchPageImpl PS pid s = Some (Some v, s') \<and>
               trace (disk_manager s') = trace (disk_manager s) @ [Write ?vp ?vd, Read pid] \<and>
               contents (disk_manager s') = (contents (disk_manager s))(?vp := ?vd) \<and>
               page_table s' = ((page_table s)(?vp := None))(pid \<mapsto> v) \<and>
               page_table s' ?vp = None \<and>
               pages s' ! nat v =
                 \<lparr>data = contents (disk_manager s) pid, page_id = pid, pin_count = 1,
                  is_dirty = False\<rparr>"
    if absent: "page_table s pid = None"
  proof -
    have ne: "pid \<noteq> ?vp" using absent res by auto
    let ?s1 = "s\<lparr>replacer := rep\<rparr>"
    have "page_table ?s1 ?vp = Some v" "frame_in_pool ?s1 v"
      using res fp by (simp_all add: frame_in_pool_def)
    note fl1 = FlushPageImpl_resident[OF this]
    show ?thesis
      using absent fl vic fp lt dirty ne fl1
      by (simp add: FetchPageImpl_def page_at_def upd_page_def frame_in_pool_def ReadPage_def
          WritePage_def ResetMemory_def Let_def)
  qed
  have new: "\<exists>s'. NewPageImpl PS s = Some (Some (next_page_id (disk_manager s), v), s') \<and>
               trace (disk_manager s') =
                 trace (disk_manager s) @ [Allocate (next_page_id (disk_manager s)), Write ?vp ?vd] \<and>
               contents (disk_manager s') = (contents (disk_manager s))(?vp := ?vd) \<and>
               page_table s' = ((page_table s)(?vp := None))(next_page_id (disk_manager s) \<mapsto> v) \<and>
               (next_page_id (disk_manager s) \<noteq> ?vp \<longrightarrow> page_table s' ?vp = None) \<and>
               pages s' ! nat v =
                 \<lparr>data = replicate PS 0, page_id = next_page_id (disk_manager s), pin_count = 1,
                  is_dirty = True\<rparr>"
  proof -
    let ?s1 = "s\<lparr>disk_manager := disk_manager s
                \<lparr>next_page_id := next_page_id (disk_manager s) + 1,
                 trace := trace (disk_manager s) @ [Allocate (next_page_id (disk_manager s))]\<rparr>,
               replacer := rep\<rparr>"
    have "page_table ?s1 ?vp = Some v" "frame_in_pool ?s1 v"
      using res fp by (simp_all add: frame_in_pool_def)
    note fl1 = FlushPageImpl_resident[OF this]
    show ?thesis
      using fl vic fp lt dirty fl1
      by (simp add: NewPageImpl_def page_at_def upd_page_def frame_in_pool_def AllocatePage_def
          WritePage_def ResetMemory_def Let_def)
  qed
  show ?thesis using fetch new by blast
qed

text \<open>
  An instance on a pool of one frame: page 0 is created (dirty) and unpinned. Fetching
  page 7, or creating page 1, reuses frame 0 after writing page 0.
\<close>

theorem dirty_victim_written_before_reuse_witness:
  "\<exists>s s1 s2. pool_run 2 [CallNew, CallUnpinPage 0 False] (new_BufferPoolManager 2 1 (blank_disk 2)) = Some s \<and>
     free_list s = [] \<and> page_table s 0 = Some 0 \<and> is_dirty (pages s ! 0) \<and>
     FetchPageImpl 2 7 s = Some (Some 0, s1) \<and>
     trace (disk_manager s1) = [Allocate 0, Write 0 [0, 0], Read 7] \<and>
     page_table s1 0 = None \<and> page_table s1 7 = Some 0 \<and>
     NewPageImpl 2 s = Some (Some (1, 0), s2) \<and>
     trace (disk_manager s2) = [Allocate 0, Allocate 1, Write 0 [0, 0]] \<and>
     page_table s2 0 = None \<and> page_table s2 1 = Some 0"
proof -
  have "map_option (\<lambda>s. (free_list s, map_option fst (Victim (replacer s)), page_table s 7,
            page_id (pages s ! 0), page_table s 0, is_dirty (pages s ! 0), data (pages s ! 0),
            next_page_id (disk_manager s), trace (disk_manager s)))
          (pool_run 2 [CallNew, CallUnpinPage 0 False] (new_BufferPoolManager 2 1 (blank_disk 2)))
        = Some ([], Some (Some 0), None, 0, Some 0, True, [0, 0], 1, [Allocate 0])"
    by code_simp
  from run_eval[OF this] obtain s where
    run: "pool_run 2 [CallNew, CallUnpinPage 0 False] (new_BufferPoolManager 2 1 (blank_disk 2)) = Some s"
    and f: "free_list s = []" "map_option fst (Victim (replacer s)) = Some (Some 0)"
      "page_table s 7 = None" "page_id (pages s ! 0) = 0" "page_table s 0 = Some 0"
      "is_dirty (pages s ! 0)" "data (pages s ! 0) = [0, 0]" "next_page_id (disk_manager s) = 1"
      "trace (disk_manager s) = [Allocate 0]"
    by auto
  from f(2) obtain rep where vic: "Victim (replacer s) = Some (Some 0, rep)" by auto
  have n: "unat (1 :: 64 word) \<le> 2 ^ 31" by simp
  have res: "page_table s (page_id (pages s ! nat 0)) = Some 0" using f by simp
  have dirty: "is_dirty (pages s ! nat 0)" using f by simp
  from dirty_victim_written_before_reuse[OF run n f(1) vic res dirty, of 7] f(3)
  obtain s1 s2 where
    "FetchPageImpl 2 7 s = Some (Some 0, s1)"
    "trace (disk_manager s1) = trace (disk_manager s) @
        [Write (page_id (pages s ! nat 0)) (data (pages s ! nat 0)), Read 7]"
    "page_table s1 = ((page_table s)(page_id (pages s ! nat 0) := None))(7 \<mapsto> 0)"
    "NewPageImpl 2 s = Some (Some (next_page_id (disk_manager s), 0), s2)"
    "trace (disk_manager s2) = trace (disk_manager s) @
        [Allocate (next_page_id (disk_manager s)),
         Write (page_id (pages s ! nat 0)) (data (pages s ! nat 0))]"
    "page_table s2 = ((page_table s)(page_id (pages s ! nat 0) := None))
        (next_page_id (disk_manager s) \<mapsto> 0)"
    by blast
  then show ?thesis using run f by auto
qed

section \<open>Fetching a resident page does not tell the replacer\<close>

text \<open>
  C1. The code breaks the invariant. After \<open>create\<close>, \<open>unpin(0, false)\<close> and
  \<open>fetch(0)\<close> on a pool of one frame, page 0 is resident with pin count 1, and frame 0
  is still in the eligible set: \<open>FetchPageImpl\<close> never calls the replacer's \<open>Pin\<close>.
  \<open>Victim\<close> returns frame 0, and \<open>fetch(1)\<close> succeeds by evicting the pinned page.
\<close>

theorem pinned_frame_stays_eligible_and_is_evicted:
  "Option.bind refetched_pool
     (\<lambda>s. Option.bind (Victim (replacer s))
        (\<lambda>(victim, rep). map_option
           (\<lambda>(got, s'). (page_table s 0, pin_count (pages s ! 0), is_eligible (replacer s) 0,
                         victim, got, page_table s' 0, page_table s' 1))
           (FetchPageImpl 2 1 s)))
   = Some (Some 0, 1, True, Some 0, Some 0, None, Some 0)"
  by code_simp

text \<open>
  C2. The code does three of the four things the claim lists. With page 0 resident,
  unpinned and eligible, \<open>fetch(0)\<close> returns the page, raises the pin count from 0 to 1
  and makes no disk call; the frame stays in the eligible set.
\<close>

theorem FetchPageImpl_resident_stays_eligible:
  "Option.bind unpinned_pool
     (\<lambda>s. map_option
        (\<lambda>(got, s'). (page_table s 0, pin_count (pages s ! 0), is_eligible (replacer s) 0,
                      got, pin_count (pages s' ! 0),
                      trace (disk_manager s') = trace (disk_manager s),
                      is_eligible (replacer s') 0))
        (FetchPageImpl 2 0 s))
   = Some (Some 0, 0, True, Some 0, 1, True, True)"
  by code_simp

text \<open>In general: a fetch of a resident page changes the pin count and nothing else.\<close>

lemma FetchPageImpl_resident:
  "page_table s pid = Some f \<Longrightarrow> frame_in_pool s f \<Longrightarrow>
   FetchPageImpl PS pid s =
     Some (Some f, s\<lparr>pages := (pages s)[nat f := (pages s ! nat f)
                                  \<lparr>pin_count := pin_count (pages s ! nat f) + 1\<rparr>]\<rparr>)"
  by (simp add: FetchPageImpl_def page_at_def upd_page_def)

end
